theory Spec2Isabelle
  imports Complex_Main
begin

section \<open>Errors and tensors\<close>

text \<open>
  The exceptions of the Python source are values. Torch floats are modelled as the
  reals, so the arithmetic below is exact; a rank-2 long tensor is its number of
  columns together with its rows, since a tensor with no row still has a last axis.
\<close>

datatype error = AssertionError | ZeroDivisionError | IndexError | KeyError
  | RuntimeError | UnboundLocalError

record long_matrix =
  ncols :: nat
  rows :: "int list list"


text \<open>
  Modelled from the spec: \<open>make_complete_graph\<close> lives in
  \<open>pyro.distributions.spanning_tree\<close>, which is not among the sources. The spec
  addresses the complete graph on \<open>V\<close> vertices by the pair index
  \<open>k = v1 + v2 * (v2 - 1) / 2\<close> for \<open>v1 < v2\<close>, with \<open>K = V * (V - 1) / 2\<close> pairs.
\<close>

definition make_complete_graph :: "nat \<Rightarrow> (nat \<times> nat) list" where
  "make_complete_graph V = concat (map (\<lambda>v2. map (\<lambda>v1. (v1, v2)) [0..<v2]) [0..<V])"

definition pair_index :: "nat \<Rightarrow> nat \<Rightarrow> nat" where
  "pair_index v1 v2 = v1 + v2 * (v2 - 1) div 2"

section \<open>The conjugate edge guide\<close>

record edge_guide =
  capacity :: int
  edges :: "(nat \<times> nat) list"
  annealing_rate :: real
  grid :: "(nat \<times> nat) list"
  vertex_prior :: real
  edge_prior :: real
  count_stats :: real
  vertex_stats :: "real list list"
  complete_stats :: "real list list"

text \<open>\<open>_EdgeGuide.__init__\<close>: \<open>0.5 / M\<close> raises for \<open>M = 0\<close>, and \<open>torch.full\<close> rejects a
  negative dimension.\<close>

definition EdgeGuide_init :: "int \<Rightarrow> (nat \<times> nat) list \<Rightarrow> real \<Rightarrow> error + edge_guide" where
  "EdgeGuide_init cap es rate =
     (if \<not> 0 < rate then Inl AssertionError
      else let E = length es; V = E + 1; K = V * (V - 1) div 2; M = cap in
        if M = 0 then Inl ZeroDivisionError
        else if M < 0 then Inl RuntimeError
        else Inr \<lparr> capacity = cap, edges = es, annealing_rate = rate,
                   grid = make_complete_graph V,
                   vertex_prior = 0.5, edge_prior = 0.5 / real_of_int M,
                   count_stats = 1,
                   vertex_stats = replicate V (replicate (nat M) (1 / real_of_int M)),
                   complete_stats = replicate K (replicate (nat (M * M)) (1 / (real_of_int M)\<^sup>2)) \<rparr>)"

text \<open>Lines 316 to 327 of \<open>update\<close>: the two assertions and the decay factor. Under
  \<open>from __future__ import division\<close> the quotient of the two integers \<open>batch_size\<close> and
  \<open>num_rows\<close> raises when \<open>num_rows\<close> is zero.\<close>

definition decay_factor :: "edge_guide \<Rightarrow> int option \<Rightarrow> long_matrix \<Rightarrow> error + real" where
  "decay_factor st num_rows_opt z =
     (let batch_size = int (ncols z);
          num_rows = (case num_rows_opt of None \<Rightarrow> batch_size | Some n \<Rightarrow> n) in
      if \<not> batch_size \<le> num_rows then Inl AssertionError
      else if \<not> count_stats st > 0 then Inl AssertionError
      else let annealing = (1 + annealing_rate st) / (1 + real_of_int batch_size / count_stats st) in
        if num_rows = 0 then Inl ZeroDivisionError
        else let exponential_smoothing = 1 / (1 + real_of_int batch_size / real_of_int num_rows) in
          Inr (min annealing exponential_smoothing))"

text \<open>\<open>scatter_add_\<close> along the last axis with a source of ones. The index may have
  fewer rows than the table, never more; an index outside the row raises torch's
  \<open>RuntimeError\<close>, and the cells written before it stay written.\<close>

fun scatter_add_row :: "real list \<Rightarrow> int list \<Rightarrow> error option \<times> real list" where
  "scatter_add_row row [] = (None, row)"
| "scatter_add_row row (i # is) =
     (if 0 \<le> i \<and> i < int (length row)
      then scatter_add_row (row[nat i := row ! nat i + 1]) is
      else (Some RuntimeError, row))"

fun scatter_add_rows :: "real list list \<Rightarrow> int list list \<Rightarrow> error option \<times> real list list" where
  "scatter_add_rows tab [] = (None, tab)"
| "scatter_add_rows [] (r # rs) = (Some RuntimeError, [])"
| "scatter_add_rows (t # ts) (r # rs) =
     (case scatter_add_row t r of
        (Some e, t') \<Rightarrow> (Some e, t' # ts)
      | (None, t') \<Rightarrow> (case scatter_add_rows ts rs of (e, ts') \<Rightarrow> (e, t' # ts')))"

definition scatter_add :: "real list list \<Rightarrow> int list list \<Rightarrow> error option \<times> real list list" where
  "scatter_add tab idx =
     (if length idx > length tab then (Some RuntimeError, tab) else scatter_add_rows tab idx)"

definition scale :: "real \<Rightarrow> real list list \<Rightarrow> real list list" where
  "scale d tab = map (map (\<lambda>x. x * d)) tab"

text \<open>\<open>zz = (M * z)[grid[0]] + z[grid[1]]\<close>: one row per pair of the complete graph.\<close>

definition pair_codes :: "int \<Rightarrow> long_matrix \<Rightarrow> (nat \<times> nat) list \<Rightarrow> error + int list list" where
  "pair_codes M z g =
     (if list_all (\<lambda>(v1, v2). v1 < length (rows z) \<and> v2 < length (rows z)) g
      then Inr (map (\<lambda>(v1, v2). map2 (\<lambda>a b. M * a + b) (rows z ! v1) (rows z ! v2)) g)
      else Inl IndexError)"

text \<open>\<open>update\<close> returns the exception raised, if any, and the state the guide is left in.
  Lines 340 to 354 log diagnostics computed from \<open>get_posterior\<close>; they write no
  statistic and are left out, so an exception raised there, after the state is written, is
  not a value of this function.\<close>

definition update :: "edge_guide \<Rightarrow> int option \<Rightarrow> long_matrix \<Rightarrow> error option \<times> edge_guide" where
  "update st num_rows z =
     (case decay_factor st num_rows z of
        Inl e \<Rightarrow> (Some e, st)
      | Inr decay \<Rightarrow>
          let M = capacity st;
              batch_size = int (ncols z);
              st1 = st\<lparr>count_stats := (count_stats st + real_of_int batch_size) * decay\<rparr> in
          (case scatter_add (vertex_stats st1) (rows z) of
             (Some e, vs) \<Rightarrow> (Some e, st1\<lparr>vertex_stats := vs\<rparr>)
           | (None, vs) \<Rightarrow>
               let st2 = st1\<lparr>vertex_stats := scale decay vs\<rparr> in
               (case pair_codes M z (grid st2) of
                  Inl e \<Rightarrow> (Some e, st2)
                | Inr zz \<Rightarrow>
                    (case scatter_add (complete_stats st2) zz of
                       (Some e, cs) \<Rightarrow> (Some e, st2\<lparr>complete_stats := cs\<rparr>)
                     | (None, cs) \<Rightarrow> (None, st2\<lparr>complete_stats := scale decay cs\<rparr>)))))"

fun update_all :: "edge_guide \<Rightarrow> (int option \<times> long_matrix) list \<Rightarrow> edge_guide" where
  "update_all st [] = st"
| "update_all st ((n, z) # calls) = update_all (snd (update st n z)) calls"

definition effective_num_rows :: "int option \<Rightarrow> long_matrix \<Rightarrow> int" where
  "effective_num_rows num_rows z = (case num_rows of None \<Rightarrow> int (ncols z) | Some n \<Rightarrow> n)"



text \<open>\<open>_dirmul_log_prob\<close> on one row of counts: each count is paired with
  \<open>[alpha, 1]\<close>, the log-gamma function is applied, and the pairs are multiplied with
  the vector \<open>[1, -1]\<close> before the sum over the last axis. The log-gamma function of
  torch is a parameter.\<close>

definition dirmul_log_prob :: "(real \<Rightarrow> real) \<Rightarrow> real \<Rightarrow> real list \<Rightarrow> real" where
  "dirmul_log_prob lgamma alpha counts =
     sum_list (map (\<lambda>c. lgamma (c + alpha) * 1 + lgamma (c + 1) * (- 1)) counts)"

text \<open>The formula of the docstring:
  \<open>(alpha + counts).lgamma().sum(-1) - (1 + counts).lgamma().sum(-1)\<close>.\<close>

definition dirmul_reference :: "(real \<Rightarrow> real) \<Rightarrow> real \<Rightarrow> real list \<Rightarrow> real" where
  "dirmul_reference lgamma alpha counts =
     sum_list (map (\<lambda>c. lgamma (alpha + c)) counts) - sum_list (map (\<lambda>c. lgamma (1 + c)) counts)"

text \<open>In-place subtraction \<open>a -= b\<close> of vectors: \<open>b\<close> has the length of \<open>a\<close> or is
  broadcast from length one.\<close>

definition isub :: "real list \<Rightarrow> real list \<Rightarrow> error + real list" where
  "isub a b =
     (if length b = length a then Inr (map2 (\<lambda>x y. x - y) a b)
      else if length b = 1 then Inr (map (\<lambda>x. x - hd b) a)
      else Inl RuntimeError)"

definition take_at :: "real list \<Rightarrow> nat list \<Rightarrow> error + real list" where
  "take_at xs idx =
     (if list_all (\<lambda>i. i < length xs) idx then Inr (map (\<lambda>i. xs ! i) idx) else Inl IndexError)"

definition compute_edge_logits :: "(real \<Rightarrow> real) \<Rightarrow> edge_guide \<Rightarrow> error + real list" where
  "compute_edge_logits lgamma st =
     (let E = length (edges st); V = E + 1; K = V * (V - 1) div 2;
          vertex_logits = map (dirmul_log_prob lgamma (vertex_prior st)) (vertex_stats st);
          edge_logits = map (dirmul_log_prob lgamma (edge_prior st)) (complete_stats st)
      in case take_at vertex_logits (map fst (grid st)) of
           Inl e \<Rightarrow> Inl e
         | Inr l0 \<Rightarrow>
             (case isub edge_logits l0 of
                Inl e \<Rightarrow> Inl e
              | Inr edge_logits1 \<Rightarrow>
                  (case take_at vertex_logits (map snd (grid st)) of
                     Inl e \<Rightarrow> Inl e
                   | Inr l1 \<Rightarrow>
                       (case isub edge_logits1 l1 of
                          Inl e \<Rightarrow> Inl e
                        | Inr edge_logits2 \<Rightarrow>
                            if length edge_logits2 = K then Inr edge_logits2
                            else Inl AssertionError))))"

section \<open>The centre of a tree\<close>

text \<open>A Python set of vertices is a list without repetition: \<open>add\<close> is
  \<open>List.insert\<close>, \<open>remove\<close> raises on a missing element, \<open>sorted\<close> is \<open>sort\<close>.
  Vertex ids are natural numbers.\<close>

definition add_edge :: "nat list list \<Rightarrow> nat \<times> nat \<Rightarrow> error + nat list list" where
  "add_edge nb e =
     (case e of (v1, v2) \<Rightarrow>
        if \<not> v1 < length nb then Inl IndexError
        else let nb1 = nb[v1 := List.insert v2 (nb ! v1)] in
          if \<not> v2 < length nb1 then Inl IndexError
          else Inr (nb1[v2 := List.insert v1 (nb1 ! v2)]))"

fun build_neighbors :: "nat list list \<Rightarrow> (nat \<times> nat) list \<Rightarrow> error + nat list list" where
  "build_neighbors nb [] = Inr nb"
| "build_neighbors nb (e # es) =
     (case add_edge nb e of Inl x \<Rightarrow> Inl x | Inr nb' \<Rightarrow> build_neighbors nb' es)"

text \<open>The body of the \<open>for v2 in sorted(neighbors[v])\<close> loop of \<open>find_center_of_tree\<close>.\<close>

fun strip_neighbors ::
  "nat \<Rightarrow> nat list \<Rightarrow> nat list list \<Rightarrow> nat list \<Rightarrow> error + (nat list list \<times> nat list)" where
  "strip_neighbors v [] nb queue = Inr (nb, queue)"
| "strip_neighbors v (v2 # vs) nb queue =
     (if \<not> v2 < length nb then Inl IndexError
      else if v \<notin> set (nb ! v2) then Inl KeyError
      else let nb' = nb[v2 := remove1 v (nb ! v2)] in
        strip_neighbors v vs nb' (if length (nb' ! v2) = 1 then queue @ [v2] else queue))"

definition nb_size :: "nat list list \<Rightarrow> nat" where
  "nb_size nb = sum_list (map length nb)"

lemma nb_size_update:
  "i < length nb \<Longrightarrow> nb_size (nb[i := xs]) + length (nb ! i) = nb_size nb + length xs"
  unfolding nb_size_def
proof (induction nb arbitrary: i)
  case Nil
  then show ?case by simp
next
  case (Cons a nb)
  then show ?case by (cases i) auto
qed

lemma strip_neighbors_measure:
  "strip_neighbors v vs nb queue = Inr (nb', queue') \<Longrightarrow>
     2 * nb_size nb' + length queue' \<le> 2 * nb_size nb + length queue"
proof (induction v vs nb queue rule: strip_neighbors.induct)
  case (1 v nb queue)
  then show ?case by simp
next
  case (2 v v2 vs nb queue)
  from "2.prems" have lt: "v2 < length nb" and mem: "v \<in> set (nb ! v2)"
    by (auto split: if_splits)
  define nb1 where "nb1 = nb[v2 := remove1 v (nb ! v2)]"
  define q1 where "q1 = (if length (nb1 ! v2) = 1 then queue @ [v2] else queue)"
  from "2.prems" lt mem have rec: "strip_neighbors v vs nb1 q1 = Inr (nb', queue')"
    by (simp add: nb1_def q1_def Let_def)
  have ih: "2 * nb_size nb' + length queue' \<le> 2 * nb_size nb1 + length q1"
    using "2.IH"[OF _ _ refl] lt mem rec unfolding nb1_def q1_def by simp
  have "length (remove1 v (nb ! v2)) + 1 = length (nb ! v2)"
    using mem by (simp add: length_remove1) (metis Suc_pred length_pos_if_in_set)
  then have "nb_size nb1 + 1 = nb_size nb"
    using nb_size_update[OF lt, of "remove1 v (nb ! v2)"] by (simp add: nb1_def)
  moreover have "length q1 \<le> length queue + 1" by (simp add: q1_def)
  ultimately show ?case using ih by linarith
qed

text \<open>The \<open>while queue\<close> loop; the third argument is the variable \<open>v\<close>, unbound
  until the first \<open>popleft\<close>.\<close>

function strip_leaves :: "nat list list \<Rightarrow> nat list \<Rightarrow> nat option \<Rightarrow> error + nat option" where
  "strip_leaves nb [] v = Inr v"
| "strip_leaves nb (u # queue) v =
     (if \<not> u < length nb then Inl IndexError
      else case strip_neighbors u (sort (nb ! u)) nb queue of
             Inl e \<Rightarrow> Inl e
           | Inr (nb', queue') \<Rightarrow> strip_leaves nb' queue' (Some u))"
  by pat_completeness auto
termination
  by (relation "measure (\<lambda>(nb, queue, v). 2 * nb_size nb + length queue)")
     (auto dest: strip_neighbors_measure)

text \<open>The same loop, recording every vertex it takes from the queue.\<close>

function strip_order :: "nat list list \<Rightarrow> nat list \<Rightarrow> error + nat list" where
  "strip_order nb [] = Inr []"
| "strip_order nb (u # queue) =
     (if \<not> u < length nb then Inl IndexError
      else case strip_neighbors u (sort (nb ! u)) nb queue of
             Inl e \<Rightarrow> Inl e
           | Inr (nb', queue') \<Rightarrow>
               (case strip_order nb' queue' of Inl e \<Rightarrow> Inl e | Inr us \<Rightarrow> Inr (u # us)))"
  by pat_completeness auto
termination
  by (relation "measure (\<lambda>(nb, queue). 2 * nb_size nb + length queue)")
     (auto dest: strip_neighbors_measure)

definition initial_queue :: "nat list list \<Rightarrow> nat list" where
  "initial_queue nb = filter (\<lambda>v. length (nb ! v) \<le> 1) [0..<length nb]"

definition find_center_of_tree :: "(nat \<times> nat) list \<Rightarrow> error + nat" where
  "find_center_of_tree es =
     (let V = length es + 1 in
      case build_neighbors (replicate V []) es of
        Inl e \<Rightarrow> Inl e
      | Inr nb \<Rightarrow>
          (case strip_leaves nb (initial_queue nb) None of
             Inl e \<Rightarrow> Inl e
           | Inr None \<Rightarrow> Inl UnboundLocalError
           | Inr (Some v) \<Rightarrow> Inr v))"

definition visit_order :: "(nat \<times> nat) list \<Rightarrow> error + nat list" where
  "visit_order es =
     (case build_neighbors (replicate (length es + 1) []) es of
        Inl e \<Rightarrow> Inl e
      | Inr nb \<Rightarrow> strip_order nb (initial_queue nb))"

section \<open>The tree printer\<close>

text \<open>The \<open>while stack\<close> loop of \<open>print_tree\<close>. The stack is kept with its top
  (\<open>stack[-1]\<close>) at the head of the list; \<open>seen\<close> is a set, kept as a list.\<close>

lemma find_unseen_card:
  assumes "find (\<lambda>n. n \<notin> set seen) xs = Some n" "set xs \<subseteq> A" "finite A"
  shows "card (A - set (n # seen)) < card (A - set seen)"
proof -
  from assms(1) have "n \<in> set xs" "n \<notin> set seen"
    by (auto simp: find_Some_iff)
  then have "n \<in> A - set seen" using assms(2) by auto
  moreover have "A - set (n # seen) = (A - set seen) - {n}" by auto
  moreover have "finite (A - set seen)" using assms(3) by simp
  ultimately show ?thesis by (metis card_Diff1_less)
qed

lemma print_loop_measure:
  assumes "u < length nb" "find (\<lambda>n. n \<notin> set seen) (rev (sort (nb ! u))) = Some n"
  shows "Suc (2 * card (\<Union> (set ` set nb) - insert n (set seen)))
           < 2 * card (\<Union> (set ` set nb) - set seen)"
proof -
  have "set (rev (sort (nb ! u))) \<subseteq> \<Union> (set ` set nb)"
    using assms(1) by (auto dest: nth_mem)
  from find_unseen_card[OF assms(2) this] show ?thesis by simp
qed

function print_loop ::
  "nat list list \<Rightarrow> string list \<Rightarrow> nat list \<Rightarrow> nat list \<Rightarrow> (nat \<times> string) list
     \<Rightarrow> error + (nat \<times> string) list" where
  "print_loop nb names [] seen lines = Inr lines"
| "print_loop nb names (u # rest) seen lines =
     (if \<not> u < length nb then Inl IndexError
      else case find (\<lambda>n. n \<notin> set seen) (rev (sort (nb ! u))) of
             Some n \<Rightarrow> print_loop nb names (n # u # rest) (n # seen) lines
           | None \<Rightarrow>
               if \<not> u < length names then Inl IndexError
               else print_loop nb names rest seen (lines @ [(length rest, names ! u)]))"
  by pat_completeness auto
termination
  by (relation "measure (\<lambda>(nb, names, stack, seen, lines).
          2 * card (\<Union> (set ` set nb) - set seen) + length stack)")
     (auto intro: print_loop_measure)

declare print_loop.simps [simp del]

definition index_of :: "'a list \<Rightarrow> 'a \<Rightarrow> nat" where
  "index_of xs x = length (takeWhile (\<lambda>y. y \<noteq> x) xs)"

definition format_line :: "nat \<times> string \<Rightarrow> string" where
  "format_line l = (case l of (i, n) \<Rightarrow> concat (replicate i ''  '') @ n)"

fun join :: "string \<Rightarrow> string list \<Rightarrow> string" where
  "join sep [] = []"
| "join sep [x] = x"
| "join sep (x # y # ys) = x @ sep @ join sep (y # ys)"

definition resolve_root :: "(nat \<times> nat) list \<Rightarrow> string list \<Rightarrow> string option \<Rightarrow> error + string" where
  "resolve_root es feature_names root_opt =
     (case root_opt of
        Some r \<Rightarrow> Inr r
      | None \<Rightarrow>
          (case find_center_of_tree es of
             Inl e \<Rightarrow> Inl e
           | Inr c \<Rightarrow> if c < length feature_names then Inr (feature_names ! c)
                      else Inl IndexError))"

definition print_tree :: "(nat \<times> nat) list \<Rightarrow> string list \<Rightarrow> string option \<Rightarrow> error + string" where
  "print_tree es feature_names root_opt =
     (if length feature_names \<noteq> 1 + length es then Inl AssertionError
      else (case resolve_root es feature_names root_opt of
              Inl e \<Rightarrow> Inl e
            | Inr root_name \<Rightarrow>
                if root_name \<notin> set feature_names then Inl AssertionError
                else (case build_neighbors (replicate (length feature_names) []) es of
                        Inl e \<Rightarrow> Inl e
                      | Inr nb \<Rightarrow>
                          let start = index_of feature_names root_name in
                          (case print_loop nb feature_names [start] [start] [] of
                             Inl e \<Rightarrow> Inl e
                           | Inr lines \<Rightarrow> Inr (join [CHR 0x0A] (map format_line (rev lines)))))))"

section \<open>The model\<close>

text \<open>The \<open>edges\<close> argument of \<open>TreeCat.__init__\<close>: a tensor with its type, its
  shape and its entries in row-major order.\<close>

record edges_tensor =
  is_cpu_long :: bool
  shape :: "nat list"
  entries :: "nat list"

fun pairs_of :: "nat list \<Rightarrow> (nat \<times> nat) list" where
  "pairs_of (a # b # xs) = (a, b) # pairs_of xs"
| "pairs_of xs = []"

text \<open>\<open>torch.stack([torch.arange(E), torch.arange(1, 1 + E)], dim=-1)\<close>; \<open>arange\<close>
  rejects a negative bound.\<close>

definition default_edges :: "int \<Rightarrow> error + edges_tensor" where
  "default_edges E =
     (if E < 0 then Inl RuntimeError
      else Inr \<lparr> is_cpu_long = True, shape = [nat E, 2],
                 entries = concat (map (\<lambda>i. [i, i + 1]) [0..<nat E]) \<rparr>)"

record 'f treecat =
  tc_features :: "'f list"
  tc_capacity :: int
  tc_edge_guide :: edge_guide
  tc_edges :: "(nat \<times> nat) list"
  tc_root :: nat
  tc_neighbors :: "nat list list"
  tc_edge_index :: "nat \<times> nat \<Rightarrow> nat option"

fun index_edges ::
  "nat \<Rightarrow> (nat \<times> nat) list \<Rightarrow> (nat \<times> nat \<Rightarrow> nat option) \<Rightarrow> (nat \<times> nat \<Rightarrow> nat option)" where
  "index_edges e [] m = m"
| "index_edges e ((v1, v2) # es) m = index_edges (e + 1) es (m((v1, v2) \<mapsto> e, (v2, v1) \<mapsto> e))"

text \<open>The setter of \<open>TreeCat.edges\<close>.\<close>

definition set_edges :: "'f list \<Rightarrow> int \<Rightarrow> edge_guide \<Rightarrow> (nat \<times> nat) list \<Rightarrow> error + 'f treecat" where
  "set_edges fs cap g es =
     (case find_center_of_tree es of
        Inl e \<Rightarrow> Inl e
      | Inr r \<Rightarrow>
          (case build_neighbors (replicate (length fs) []) es of
             Inl e \<Rightarrow> Inl e
           | Inr nb \<Rightarrow>
               Inr \<lparr> tc_features = fs, tc_capacity = cap, tc_edge_guide = g\<lparr>edges := es\<rparr>,
                     tc_edges = es, tc_root = r, tc_neighbors = nb,
                     tc_edge_index = index_edges 0 es Map.empty \<rparr>))"

definition TreeCat_init ::
  "'f list \<Rightarrow> int \<Rightarrow> edges_tensor option \<Rightarrow> real \<Rightarrow> error + 'f treecat" where
  "TreeCat_init fs cap edges_opt rate =
     (let V = int (length fs); E = V - 1 in
      case (case edges_opt of None \<Rightarrow> default_edges E | Some t \<Rightarrow> Inr t) of
        Inl e \<Rightarrow> Inl e
      | Inr t \<Rightarrow>
          if \<not> cap > 1 then Inl AssertionError
          else if \<not> is_cpu_long t then Inl AssertionError
          else if map int (shape t) \<noteq> [E, 2] then Inl AssertionError
          else (case EdgeGuide_init cap (pairs_of (entries t)) rate of
                  Inl e \<Rightarrow> Inl e
                | Inr g \<Rightarrow> set_edges fs cap g (pairs_of (entries t))))"

text \<open>\<open>TreeCat.model\<close>: the two assertions, then the sampling statements, which
  belong to the effect-handler runtime and are a parameter here.\<close>

definition model ::
  "'f treecat \<Rightarrow> ('f treecat \<Rightarrow> 'c option list \<Rightarrow> error + 'r) \<Rightarrow> 'c option list \<Rightarrow> error + 'r" where
  "model tc body data =
     (if length data \<noteq> length (tc_features tc) then Inl AssertionError
      else if list_all (\<lambda>column. column = None) data then Inl AssertionError
      else body tc data)"

text \<open>\<open>_propagate\<close> up to the distribution of the latent state of \<open>v\<close>, for one
  data row: \<open>z\<close> holds the latent states realized so far. The neighbours are visited in
  the order of the list that stands for the set; Python leaves the order of a set open,
  and it matters only when more than one neighbour is realized.\<close>

fun scan_neighbors ::
  "nat list \<Rightarrow> nat option list \<Rightarrow> nat option \<Rightarrow> nat list \<Rightarrow> error + (nat option \<times> nat list)" where
  "scan_neighbors [] z v0 children = Inr (v0, children)"
| "scan_neighbors (v2 # vs) z v0 children =
     (if \<not> v2 < length z then Inl IndexError
      else case z ! v2 of
             None \<Rightarrow> scan_neighbors vs z v0 (children @ [v2])
           | Some s \<Rightarrow> scan_neighbors vs z (Some v2) children)"

definition reshape :: "nat \<Rightarrow> 'a list \<Rightarrow> 'a list list" where
  "reshape M xs = map (\<lambda>i. take M (drop (i * M) xs)) [0..<M]"

definition transpose_sq :: "nat \<Rightarrow> 'a list list \<Rightarrow> 'a list list" where
  "transpose_sq M j = map (\<lambda>c. map (\<lambda>r. (j ! r) ! c) [0..<M]) [0..<M]"

definition latent_probs ::
  "'f treecat \<Rightarrow> real list list \<Rightarrow> real list list \<Rightarrow> nat option list \<Rightarrow> nat \<Rightarrow> error + real list" where
  "latent_probs tc vertex_probs edge_probs z v =
     (if \<not> v < length (tc_neighbors tc) then Inl IndexError
      else case scan_neighbors (tc_neighbors tc ! v) z None [] of
             Inl e \<Rightarrow> Inl e
           | Inr (None, children) \<Rightarrow>
               if v < length vertex_probs then Inr (vertex_probs ! v) else Inl IndexError
           | Inr (Some v0, children) \<Rightarrow>
               let M = nat (tc_capacity tc) in
               (case tc_edge_index tc (v, v0) of
                  None \<Rightarrow> Inl KeyError
                | Some e \<Rightarrow>
                    if \<not> e < length edge_probs then Inl IndexError
                    else let joint = edge_probs ! e in
                      if length joint \<noteq> M * M then Inl RuntimeError
                      else let joint = reshape M joint;
                               joint = (if v0 > v then transpose_sq M joint else joint) in
                        (case z ! v0 of
                           None \<Rightarrow> Inl IndexError
                         | Some s \<Rightarrow> if s < M then Inr (joint ! s) else Inl IndexError)))"

section \<open>Example data\<close>

text \<open>The scenario of the specification: the path \<open>0 - 1 - 2\<close> with capacity 2 and one
  row of latent states.\<close>

definition example_z :: long_matrix where
  "example_z = \<lparr>ncols = 1, rows = [[0], [0], [1]]\<rparr>"

definition example_guide :: edge_guide where
  "example_guide =
     \<lparr>capacity = 2, edges = [(0, 1), (1, 2)], annealing_rate = 1 / 100,
      grid = [(0, 1), (0, 2), (1, 2)], vertex_prior = 1 / 2, edge_prior = 1 / 4, count_stats = 1,
      vertex_stats = [[1 / 2, 1 / 2], [1 / 2, 1 / 2], [1 / 2, 1 / 2]],
      complete_stats = [[1 / 4, 1 / 4, 1 / 4, 1 / 4], [1 / 4, 1 / 4, 1 / 4, 1 / 4],
                        [1 / 4, 1 / 4, 1 / 4, 1 / 4]]\<rparr>"

section \<open>Well-formed guides and latent matrices\<close>

text \<open>The shapes an edge guide keeps, the matrices \<open>update\<close> is documented to take
  (\<open>V\<close> rows of latent states below the capacity), the table a successful
  \<open>scatter_add_\<close> leaves, and the states reached from \<open>__init__\<close> by re-assigning the
  edges and by updates that return.\<close>

definition valid_index :: "nat \<Rightarrow> int \<Rightarrow> bool" where
  "valid_index n i \<longleftrightarrow> 0 \<le> i \<and> i < int n"

definition add_counts :: "real list \<Rightarrow> int list \<Rightarrow> real list" where
  "add_counts row idx = map (\<lambda>m. row ! m + real (count_list idx (int m))) [0..<length row]"

definition wf_guide :: "edge_guide \<Rightarrow> bool" where
  "wf_guide st \<longleftrightarrow>
     0 < capacity st
     \<and> grid st = make_complete_graph (length (edges st) + 1)
     \<and> length (vertex_stats st) = length (edges st) + 1
     \<and> list_all (\<lambda>r. length r = nat (capacity st)) (vertex_stats st)
     \<and> length (complete_stats st) = length (grid st)
     \<and> list_all (\<lambda>r. length r = nat (capacity st * capacity st)) (complete_stats st)"

definition is_latent_matrix :: "nat \<Rightarrow> int \<Rightarrow> long_matrix \<Rightarrow> bool" where
  "is_latent_matrix V M z \<longleftrightarrow>
     length (rows z) = V
     \<and> list_all (\<lambda>r. length r = ncols z \<and> list_all (\<lambda>x. 0 \<le> x \<and> x < M) r) (rows z)"

definition codes_of :: "edge_guide \<Rightarrow> long_matrix \<Rightarrow> int list list" where
  "codes_of st z =
     map (\<lambda>(v1, v2). map2 (\<lambda>a b. capacity st * a + b) (rows z ! v1) (rows z ! v2)) (grid st)"



definition example_updated :: edge_guide where
  "example_updated =
     \<lparr>capacity = 2, edges = [(0, 1), (1, 2)], annealing_rate = 1 / 100,
      grid = [(0, 1), (0, 2), (1, 2)], vertex_prior = 1 / 2, edge_prior = 1 / 4, count_stats = 1,
      vertex_stats = [[3 / 4, 1 / 4], [3 / 4, 1 / 4], [1 / 4, 3 / 4]],
      complete_stats = [[5 / 8, 1 / 8, 1 / 8, 1 / 8], [1 / 8, 5 / 8, 1 / 8, 1 / 8],
                        [1 / 8, 5 / 8, 1 / 8, 1 / 8]]\<rparr>"



definition jeffreys_priors :: "edge_guide \<Rightarrow> bool" where
  "jeffreys_priors st \<longleftrightarrow>
     vertex_prior st = 0.5 \<and> edge_prior st = 0.5 / real_of_int (capacity st)"


definition example_tree :: "unit treecat" where
  "example_tree =
     \<lparr>tc_features = [(), (), ()], tc_capacity = 2, tc_edge_guide = example_guide,
      tc_edges = [(0, 1), (1, 2)], tc_root = 1, tc_neighbors = [[1], [2, 0], [1]],
      tc_edge_index = [(0, 1) \<mapsto> 0, (1, 0) \<mapsto> 0, (1, 2) \<mapsto> 1, (2, 1) \<mapsto> 1]\<rparr>"


section \<open>Rooted trees and listings\<close>

text \<open>A rooted tree with its children in increasing order of their vertex ids, the
  adjacency lists that represent it, its listing in preorder and in postorder, and the
  order of Python strings.\<close>

datatype rtree = Node nat "rtree list"

fun root_of :: "rtree \<Rightarrow> nat" where
  "root_of (Node v ts) = v"

fun labels :: "rtree \<Rightarrow> nat list" where
  "labels (Node v ts) = v # concat (map labels ts)"

fun render :: "string list \<Rightarrow> nat \<Rightarrow> rtree \<Rightarrow> (nat \<times> string) list" where
  "render names d (Node v ts) = (d, names ! v) # concat (map (render names (Suc d)) ts)"

fun postorder :: "string list \<Rightarrow> nat \<Rightarrow> rtree \<Rightarrow> (nat \<times> string) list" where
  "postorder names d (Node v ts) = concat (map (postorder names (Suc d)) (rev ts)) @ [(d, names ! v)]"

fun tree_adj :: "nat list list \<Rightarrow> nat option \<Rightarrow> rtree \<Rightarrow> bool" where
  "tree_adj nb p (Node v ts) \<longleftrightarrow>
     v < length nb \<and> set (nb ! v) = set_option p \<union> set (map root_of ts)
     \<and> sorted (map root_of ts) \<and> (\<forall>t \<in> set ts. tree_adj nb (Some v) t)"

fun str_less :: "string \<Rightarrow> string \<Rightarrow> bool" where
  "str_less [] [] = False"
| "str_less [] (y # ys) = True"
| "str_less (x # xs) [] = False"
| "str_less (x # xs) (y # ys) = ((of_char x :: nat) < of_char y \<or> (x = y \<and> str_less xs ys))"

definition reverse_lexicographic :: "string list \<Rightarrow> bool" where
  "reverse_lexicographic names \<longleftrightarrow> sorted_wrt (\<lambda>a b. str_less b a) names"

definition example_rtree :: rtree where
  "example_rtree = Node 0 [Node 1 [], Node 2 [Node 3 []]]"

section \<open>Free trees\<close>

text \<open>The undirected edge relation of an edge list. A tree is a single vertex, or a tree
  with a new vertex joined by one edge to one of its vertices; every finite tree arises
  this way, in whatever order its edges are listed. \<open>nbrs_in E U v\<close> are the neighbours of
  \<open>v\<close> inside the vertex set \<open>U\<close>, and \<open>degree es v\<close> is the number of neighbours of
  \<open>v\<close> in the graph on the vertices \<open>0, \<dots>, length es\<close>.\<close>

definition edge_rel :: "(nat \<times> nat) list \<Rightarrow> (nat \<times> nat) set" where
  "edge_rel es = set es \<union> (set es)\<inverse>"

inductive is_tree :: "nat set \<Rightarrow> (nat \<times> nat) set \<Rightarrow> bool" where
  single: "is_tree {v} {}"
| leaf: "is_tree S E \<Longrightarrow> u \<in> S \<Longrightarrow> v \<notin> S \<Longrightarrow> is_tree (insert v S) (E \<union> {(u, v), (v, u)})"

definition nbrs_in :: "(nat \<times> nat) set \<Rightarrow> nat set \<Rightarrow> nat \<Rightarrow> nat set" where
  "nbrs_in E U v = {w \<in> U. (v, w) \<in> E}"

definition degree :: "(nat \<times> nat) list \<Rightarrow> nat \<Rightarrow> nat" where
  "degree es v = card (nbrs_in (edge_rel es) {..<length es + 1} v)"

text \<open>The state of the leaf-stripping loop when the vertices \<open>U\<close> are still to be taken
  from the queue: they form a tree, the neighbour sets of the loop are their neighbours
  inside \<open>U\<close>, and the queue holds exactly the vertices of degree at most one.\<close>

definition strip_inv :: "(nat \<times> nat) set \<Rightarrow> nat set \<Rightarrow> nat list list \<Rightarrow> nat list \<Rightarrow> bool" where
  "strip_inv E U nb q \<longleftrightarrow>
     finite U \<and> (U = {} \<or> is_tree U (E \<inter> U \<times> U))
     \<and> (\<forall>u \<in> U. u < length nb \<and> distinct (nb ! u) \<and> set (nb ! u) = nbrs_in E U u)
     \<and> distinct q \<and> set q = {u \<in> U. card (nbrs_in E U u) \<le> 1}"

section \<open>The statistics update\<close>

lemma example_guide_init: "EdgeGuide_init 2 [(0, 1), (1, 2)] (1 / 100) = Inr example_guide"
  by code_simp

lemma add_counts_Nil: "add_counts row [] = row"
  by (simp add: add_counts_def map_nth)

lemma add_counts_Cons:
  assumes "valid_index (length row) i"
  shows "add_counts (row[nat i := row ! nat i + 1]) idx = add_counts row (i # idx)"
proof (rule nth_equalityI)
  show "length (add_counts (row[nat i := row ! nat i + 1]) idx) = length (add_counts row (i # idx))"
    by (simp add: add_counts_def)
next
  fix m assume "m < length (add_counts (row[nat i := row ! nat i + 1]) idx)"
  then have m: "m < length row" by (simp add: add_counts_def)
  have "int m = i \<longleftrightarrow> m = nat i" using assms by (auto simp: valid_index_def)
  then show "add_counts (row[nat i := row ! nat i + 1]) idx ! m = add_counts row (i # idx) ! m"
    using m by (auto simp: add_counts_def nth_list_update)
qed

lemma scatter_add_row_ok:
  "list_all (valid_index (length row)) idx \<Longrightarrow> scatter_add_row row idx = (None, add_counts row idx)"
proof (induction idx arbitrary: row)
  case Nil
  then show ?case by (simp add: add_counts_Nil)
next
  case (Cons i idx)
  then have v: "valid_index (length row) i" and rest: "list_all (valid_index (length row)) idx"
    by simp_all
  have "scatter_add_row (row[nat i := row ! nat i + 1]) idx
          = (None, add_counts (row[nat i := row ! nat i + 1]) idx)"
    using Cons.IH[of "row[nat i := row ! nat i + 1]"] rest by simp
  then show ?case using v by (simp add: add_counts_Cons) (simp add: valid_index_def)
qed

lemma scatter_add_row_length: "length (snd (scatter_add_row row idx)) = length row"
  by (induction row idx rule: scatter_add_row.induct) auto




lemma scatter_add_rows_ok:
  "length idx = length tab \<Longrightarrow> list_all2 (\<lambda>t r. list_all (valid_index (length t)) r) tab idx \<Longrightarrow>
     scatter_add_rows tab idx = (None, map2 add_counts tab idx)"
proof (induction tab idx rule: scatter_add_rows.induct)
  case (1 tab)
  then show ?case by simp
next
  case (2 r rs)
  then show ?case by simp
next
  case (3 t ts r rs)
  then show ?case by (simp add: scatter_add_row_ok)
qed


lemma make_complete_graph_Suc:
  "make_complete_graph (Suc V) = make_complete_graph V @ map (\<lambda>v1. (v1, V)) [0..<V]"
  by (simp add: make_complete_graph_def)

lemma triangle_Suc: "Suc n * (Suc n - 1) div 2 = n * (n - 1) div 2 + n"
proof -
  have "Suc n * (Suc n - 1) = n * (n - 1) + n * 2"
    by (cases n) (simp_all add: algebra_simps)
  then show ?thesis by simp
qed

lemma length_make_complete_graph: "length (make_complete_graph V) = V * (V - 1) div 2"
proof (induction V)
  case 0
  then show ?case by (simp add: make_complete_graph_def)
next
  case (Suc V)
  then show ?case by (simp only: make_complete_graph_Suc triangle_Suc length_append length_map length_upt)
qed

lemma make_complete_graph_prefix:
  "v \<le> V \<Longrightarrow> \<exists>ys. make_complete_graph V = make_complete_graph v @ ys"
proof (induction V)
  case 0
  then show ?case by simp
next
  case (Suc V)
  show ?case
  proof (cases "v = Suc V")
    case True
    then show ?thesis by simp
  next
    case False
    then have "v \<le> V" using Suc.prems by simp
    then obtain ys where "make_complete_graph V = make_complete_graph v @ ys"
      using Suc.IH by blast
    then show ?thesis by (simp add: make_complete_graph_Suc)
  qed
qed

lemma pair_index_length: "pair_index v1 v2 = length (make_complete_graph v2) + v1"
  by (simp add: pair_index_def length_make_complete_graph)

lemma make_complete_graph_nth:
  assumes "v1 < v2" "v2 < V"
  shows "pair_index v1 v2 < length (make_complete_graph V)
       \<and> make_complete_graph V ! pair_index v1 v2 = (v1, v2)"
proof -
  obtain ys where ys: "make_complete_graph V = make_complete_graph (Suc v2) @ ys"
    using make_complete_graph_prefix[of "Suc v2" V] assms(2) by auto
  have lt: "pair_index v1 v2 < length (make_complete_graph (Suc v2))"
    using assms(1) by (simp add: pair_index_length make_complete_graph_Suc)
  have "make_complete_graph (Suc v2) ! pair_index v1 v2 = (v1, v2)"
    using assms(1) by (simp add: pair_index_length make_complete_graph_Suc nth_append)
  then show ?thesis using lt ys by (simp add: nth_append)
qed

lemma set_make_complete_graph: "set (make_complete_graph V) = {(v1, v2). v1 < v2 \<and> v2 < V}"
  by (auto simp: make_complete_graph_def)

lemma init_wf: "EdgeGuide_init cap es rate = Inr st \<Longrightarrow> wf_guide st"
  by (auto simp: EdgeGuide_init_def wf_guide_def Let_def length_make_complete_graph list_all_iff
      simp del: replicate_Suc replicate.simps split: if_splits)

lemma code_bounds:
  fixes M a b :: int
  assumes "0 \<le> a" "a < M" "0 \<le> b" "b < M"
  shows "0 \<le> M * a + b \<and> M * a + b < M * M"
proof -
  have "M * a \<le> M * (M - 1)" using assms by (intro mult_left_mono) auto
  then have "M * a + b < M * (M - 1) + M" using assms by linarith
  moreover have "0 \<le> M * a" using assms by simp
  ultimately show ?thesis using assms by (simp add: algebra_simps)
qed

lemma code_inj:
  fixes M a b a' b' :: int
  assumes "0 \<le> a" "a < M" "0 \<le> b" "b < M" "0 \<le> a'" "a' < M" "0 \<le> b'" "b' < M"
  shows "M * a + b = M * a' + b' \<longleftrightarrow> a = a' \<and> b = b'"
proof
  assume eq: "M * a + b = M * a' + b'"
  have M: "0 < M" using assms by linarith
  have "(M * a + b) div M = a" using assms M by (simp add: div_pos_pos_trivial)
  moreover have "(M * a' + b') div M = a'" using assms M by (simp add: div_pos_pos_trivial)
  ultimately have "a = a'" using eq by simp
  then show "a = a' \<and> b = b'" using eq by simp
qed simp

lemma count_list_codes:
  fixes M a b :: int
  assumes "list_all (\<lambda>x. 0 \<le> x \<and> x < M) xs" "list_all (\<lambda>x. 0 \<le> x \<and> x < M) ys"
    and "0 \<le> a" "a < M" "0 \<le> b" "b < M"
  shows "count_list (map2 (\<lambda>a b. M * a + b) xs ys) (M * a + b) = count_list (zip xs ys) (a, b)"
  using assms(1,2)
proof (induction xs arbitrary: ys)
  case Nil
  then show ?case by simp
next
  case (Cons x xs)
  show ?case
  proof (cases ys)
    case Nil
    then show ?thesis by simp
  next
    case (Cons y ys')
    with Cons.prems have x: "0 \<le> x" "x < M" and y: "0 \<le> y" "y < M" by simp_all
    have "M * x + y = M * a + b \<longleftrightarrow> x = a \<and> y = b"
      using code_inj[OF x y assms(3-6)] .
    then show ?thesis using Cons.IH[of ys'] Cons.prems Cons by auto
  qed
qed

lemma list_all_codes:
  fixes M :: int
  assumes "list_all (\<lambda>x. 0 \<le> x \<and> x < M) xs" "list_all (\<lambda>x. 0 \<le> x \<and> x < M) ys"
  shows "list_all (valid_index (nat (M * M))) (map2 (\<lambda>a b. M * a + b) xs ys)"
  using assms
proof (induction xs arbitrary: ys)
  case Nil
  then show ?case by simp
next
  case (Cons x xs)
  show ?case
  proof (cases ys)
    case Nil
    then show ?thesis by simp
  next
    case (Cons y ys')
    with Cons.prems have x: "0 \<le> x" "x < M" and y: "0 \<le> y" "y < M" by simp_all
    have "valid_index (nat (M * M)) (M * x + y)"
      using code_bounds[OF x y] by (simp add: valid_index_def)
    then show ?thesis using Cons.IH[of ys'] Cons.prems Cons by simp
  qed
qed

lemma latent_row:
  assumes "is_latent_matrix V M z" "v < V"
  shows "length (rows z ! v) = ncols z \<and> list_all (\<lambda>x. 0 \<le> x \<and> x < M) (rows z ! v)"
  using assms by (auto simp: is_latent_matrix_def list_all_length)

lemma vertex_scatter_ok:
  assumes wf: "wf_guide st" and lat: "is_latent_matrix (length (edges st) + 1) (capacity st) z"
  shows "scatter_add (vertex_stats st) (rows z) = (None, map2 add_counts (vertex_stats st) (rows z))"
proof -
  have len: "length (rows z) = length (vertex_stats st)"
    using wf lat by (simp add: wf_guide_def is_latent_matrix_def)
  have "list_all2 (\<lambda>t r. list_all (valid_index (length t)) r) (vertex_stats st) (rows z)"
  proof (rule list_all2_all_nthI)
    show "length (vertex_stats st) = length (rows z)" using len by simp
  next
    fix n assume n: "n < length (vertex_stats st)"
    then have l: "length (vertex_stats st ! n) = nat (capacity st)"
      using wf by (simp add: wf_guide_def list_all_length)
    have "n < length (edges st) + 1" using n wf by (simp add: wf_guide_def)
    from latent_row[OF lat this]
    have "list_all (\<lambda>x. 0 \<le> x \<and> x < capacity st) (rows z ! n)" by simp
    then show "list_all (valid_index (length (vertex_stats st ! n))) (rows z ! n)"
      unfolding l by (rule list.pred_mono_strong) (simp add: valid_index_def)
  qed
  then show ?thesis using len by (simp add: scatter_add_def scatter_add_rows_ok)
qed

lemma pair_codes_ok:
  assumes wf: "wf_guide st" and lat: "is_latent_matrix (length (edges st) + 1) (capacity st) z"
  shows "pair_codes (capacity st) z (grid st) = Inr (codes_of st z)"
proof -
  have "list_all (\<lambda>(v1, v2). v1 < length (rows z) \<and> v2 < length (rows z)) (grid st)"
    using wf lat
    by (auto simp: wf_guide_def is_latent_matrix_def list_all_iff set_make_complete_graph)
  then show ?thesis by (simp add: pair_codes_def codes_of_def)
qed

lemma complete_scatter_ok:
  assumes wf: "wf_guide st" and lat: "is_latent_matrix (length (edges st) + 1) (capacity st) z"
  shows "scatter_add (complete_stats st) (codes_of st z)
           = (None, map2 add_counts (complete_stats st) (codes_of st z))"
proof -
  have len: "length (codes_of st z) = length (complete_stats st)"
    using wf by (simp add: wf_guide_def codes_of_def)
  have "list_all2 (\<lambda>t r. list_all (valid_index (length t)) r) (complete_stats st) (codes_of st z)"
  proof (rule list_all2_all_nthI)
    show "length (complete_stats st) = length (codes_of st z)" using len by simp
  next
    fix n assume n: "n < length (complete_stats st)"
    then have l: "length (complete_stats st ! n) = nat (capacity st * capacity st)"
      using wf by (simp add: wf_guide_def list_all_length)
    have ng: "n < length (grid st)" using n wf by (simp add: wf_guide_def)
    obtain v1 v2 where g: "grid st ! n = (v1, v2)" by (cases "grid st ! n")
    have "grid st ! n \<in> set (grid st)" using ng by (rule nth_mem)
    then have "(v1, v2) \<in> set (make_complete_graph (length (edges st) + 1))"
      using g wf by (simp add: wf_guide_def)
    then have v: "v1 < length (edges st) + 1" "v2 < length (edges st) + 1"
      by (auto simp: set_make_complete_graph)
    have "list_all (valid_index (nat (capacity st * capacity st)))
            (map2 (\<lambda>a b. capacity st * a + b) (rows z ! v1) (rows z ! v2))"
      using latent_row[OF lat v(1)] latent_row[OF lat v(2)] by (intro list_all_codes) simp_all
    then show "list_all (valid_index (length (complete_stats st ! n))) (codes_of st z ! n)"
      using ng g l by (simp add: codes_of_def)
  qed
  then show ?thesis using len by (simp add: scatter_add_def scatter_add_rows_ok)
qed

lemma update_ok:
  assumes wf: "wf_guide st" and lat: "is_latent_matrix (length (edges st) + 1) (capacity st) z"
    and d: "decay_factor st num_rows z = Inr d"
  shows "update st num_rows z =
           (None, st\<lparr>count_stats := (count_stats st + real (ncols z)) * d,
                     vertex_stats := scale d (map2 add_counts (vertex_stats st) (rows z)),
                     complete_stats := scale d (map2 add_counts (complete_stats st) (codes_of st z))\<rparr>)"
  using d vertex_scatter_ok[OF wf lat] pair_codes_ok[OF wf lat] complete_scatter_ok[OF wf lat]
  by (simp add: update_def Let_def)

lemma update_error:
  "decay_factor st num_rows z = Inl e \<Longrightarrow> update st num_rows z = (Some e, st)"
  by (simp add: update_def)

lemma scale_nth: "v < length tab \<Longrightarrow> m < length (tab ! v) \<Longrightarrow> scale d tab ! v ! m = tab ! v ! m * d"
  by (simp add: scale_def)

lemma length_scale: "length (scale d tab) = length tab"
  by (simp add: scale_def)

lemma length_scale_nth: "v < length tab \<Longrightarrow> length (scale d tab ! v) = length (tab ! v)"
  by (simp add: scale_def)

lemma add_counts_nth: "m < length row \<Longrightarrow> add_counts row idx ! m = row ! m + real (count_list idx (int m))"
  by (simp add: add_counts_def)

lemma length_add_counts: "length (add_counts row idx) = length row"
  by (simp add: add_counts_def)

text \<open>
  Claim C1. An update call with a \<open>(V, batch_size)\<close> latent matrix either fails a
  check of the decay computation, leaving the state as it was, or has exactly this
  effect: \<open>count_stats\<close> becomes \<open>(count_stats + batch_size) * decay\<close>; every cell
  \<open>vertex_stats[v, m]\<close> becomes the old cell plus the number of rows with
  \<open>z[v, row] = m\<close>, times \<open>decay\<close>; for every pair \<open>v1 < v2\<close> the cell
  \<open>complete_stats[pair_index v1 v2, a * M + b]\<close> becomes the old cell plus the number of
  rows with \<open>z[v1, row] = a\<close> and \<open>z[v2, row] = b\<close>, times \<open>decay\<close>; nothing else changes.
\<close>

theorem update_effect:
  assumes "wf_guide st" and "is_latent_matrix (length (edges st) + 1) (capacity st) z"
  shows "case decay_factor st num_rows z of
           Inl e \<Rightarrow> update st num_rows z = (Some e, st)
         | Inr decay \<Rightarrow>
             (let V = length (edges st) + 1; M = nat (capacity st); st' = snd (update st num_rows z) in
              fst (update st num_rows z) = None
              \<and> st' = st\<lparr>count_stats := count_stats st', vertex_stats := vertex_stats st',
                         complete_stats := complete_stats st'\<rparr>
              \<and> count_stats st' = (count_stats st + real (ncols z)) * decay
              \<and> length (vertex_stats st') = V
              \<and> (\<forall>v < V. \<forall>m < M.
                    length (vertex_stats st' ! v) = M
                    \<and> vertex_stats st' ! v ! m
                        = (vertex_stats st ! v ! m + real (count_list (rows z ! v) (int m))) * decay)
              \<and> length (complete_stats st') = V * (V - 1) div 2
              \<and> (\<forall>v2 < V. \<forall>v1 < v2. \<forall>a < M. \<forall>b < M.
                    length (complete_stats st' ! pair_index v1 v2) = M * M
                    \<and> complete_stats st' ! pair_index v1 v2 ! (a * M + b)
                        = (complete_stats st ! pair_index v1 v2 ! (a * M + b)
                           + real (count_list (zip (rows z ! v1) (rows z ! v2)) (int a, int b))) * decay))"
proof (cases "decay_factor st num_rows z")
  case (Inl e)
  then show ?thesis by (simp add: update_error)
next
  case (Inr d)
  define V where "V = length (edges st) + 1"
  define M where "M = nat (capacity st)"
  define st' where "st' = snd (update st num_rows z)"
  note ok = update_ok[OF assms Inr]
  have Mpos: "0 < capacity st" and lv: "length (vertex_stats st) = V"
    and lrow: "\<And>v. v < V \<Longrightarrow> length (vertex_stats st ! v) = M"
    and g: "grid st = make_complete_graph V"
    and lc: "length (complete_stats st) = length (grid st)"
    and lcrow: "\<And>k. k < length (grid st) \<Longrightarrow> length (complete_stats st ! k) = nat (capacity st * capacity st)"
    using assms(1) by (auto simp: wf_guide_def V_def M_def list_all_length)
  have lz: "length (rows z) = V" using assms(2) by (simp add: is_latent_matrix_def V_def)
  have MM: "nat (capacity st * capacity st) = M * M"
    using Mpos by (simp add: M_def nat_mult_distrib)
  have fst_ok: "fst (update st num_rows z) = None" using ok by simp
  have vs: "vertex_stats st' = scale d (map2 add_counts (vertex_stats st) (rows z))"
    and cs: "complete_stats st' = scale d (map2 add_counts (complete_stats st) (codes_of st z))"
    and cnt: "count_stats st' = (count_stats st + real (ncols z)) * d"
    and rest: "st' = st\<lparr>count_stats := count_stats st', vertex_stats := vertex_stats st',
                         complete_stats := complete_stats st'\<rparr>"
    using ok by (simp_all add: st'_def)
  have lvs: "length (vertex_stats st') = V" using lv lz by (simp add: vs length_scale)
  have vcell: "length (vertex_stats st' ! v) = M
        \<and> vertex_stats st' ! v ! m
            = (vertex_stats st ! v ! m + real (count_list (rows z ! v) (int m))) * d"
    if "v < V" "m < M" for v m
    using that lv lz lrow[OF that(1)]
    by (simp add: vs scale_nth length_scale_nth length_add_counts add_counts_nth)
  have lcs: "length (complete_stats st') = V * (V - 1) div 2"
    using lc g by (simp add: cs length_scale codes_of_def length_make_complete_graph)
  have ccell: "length (complete_stats st' ! pair_index v1 v2) = M * M
        \<and> complete_stats st' ! pair_index v1 v2 ! (a * M + b)
            = (complete_stats st ! pair_index v1 v2 ! (a * M + b)
               + real (count_list (zip (rows z ! v1) (rows z ! v2)) (int a, int b))) * d"
    if "v2 < V" "v1 < v2" "a < M" "b < M" for v1 v2 a b
  proof -
    let ?k = "pair_index v1 v2"
    have k: "?k < length (grid st)" "grid st ! ?k = (v1, v2)"
      using make_complete_graph_nth[OF that(2,1)] g by simp_all
    have v1: "v1 < V" using that by simp
    have code: "codes_of st z ! ?k = map2 (\<lambda>a b. capacity st * a + b) (rows z ! v1) (rows z ! v2)"
      using k by (simp add: codes_of_def)
    have lk: "length (complete_stats st ! ?k) = M * M" using lcrow[OF k(1)] MM by simp
    have "a * M + b < M * M"
    proof -
      have "a * M + b < a * M + M" using that by simp
      also have "\<dots> = (a + 1) * M" by simp
      also have "\<dots> \<le> M * M" using that(3) by (intro mult_le_mono1) simp
      finally show ?thesis .
    qed
    note ab = this
    have r1: "list_all (\<lambda>x. 0 \<le> x \<and> x < capacity st) (rows z ! v1)"
      and r2: "list_all (\<lambda>x. 0 \<le> x \<and> x < capacity st) (rows z ! v2)"
      using latent_row[OF assms(2)] v1 that(1) by (simp_all add: V_def)
    have iM: "int M = capacity st" using Mpos by (simp add: M_def)
    have eq: "int (a * M + b) = capacity st * int a + int b"
      by (simp add: iM[symmetric])
    have "count_list (map2 (\<lambda>a b. capacity st * a + b) (rows z ! v1) (rows z ! v2))
             (capacity st * int a + int b) = count_list (zip (rows z ! v1) (rows z ! v2)) (int a, int b)"
      using that Mpos by (intro count_list_codes[OF r1 r2]) (simp_all add: M_def)
    then have "count_list (codes_of st z ! ?k) (int (a * M + b))
        = count_list (zip (rows z ! v1) (rows z ! v2)) (int a, int b)"
      unfolding code eq .
    then show ?thesis
      using k(1) lc lk ab
      by (simp add: cs scale_nth length_scale_nth length_add_counts add_counts_nth codes_of_def)
  qed
  show ?thesis
    unfolding Inr sum.case Let_def V_def[symmetric] M_def[symmetric] st'_def[symmetric]
    using fst_ok rest cnt lvs vcell lcs ccell by blast
qed








lemma example_wf: "wf_guide example_guide"
  using init_wf[OF example_guide_init] .

lemma example_latent: "is_latent_matrix (length (edges example_guide) + 1) (capacity example_guide) example_z"
  by (simp add: is_latent_matrix_def example_guide_def example_z_def)

lemma example_decay: "decay_factor example_guide (Some 1) example_z = Inr (1 / 2)"
  by (simp add: decay_factor_def example_z_def example_guide_def)

theorem update_effect_witness:
  "wf_guide example_guide
   \<and> is_latent_matrix (length (edges example_guide) + 1) (capacity example_guide) example_z
   \<and> decay_factor example_guide (Some 1) example_z = Inr (1 / 2)
   \<and> fst (update example_guide (Some 1) example_z) = None
   \<and> count_stats (snd (update example_guide (Some 1) example_z)) = (1 + 1) * (1 / 2)
   \<and> vertex_stats (snd (update example_guide (Some 1) example_z)) ! 0 ! 0 = (1 / 2 + 1) * (1 / 2)
   \<and> complete_stats (snd (update example_guide (Some 1) example_z)) ! pair_index 0 2 ! (0 * 2 + 1)
        = (1 / 4 + 1) * (1 / 2)"
proof -
  let ?st' = "snd (update example_guide (Some 1) example_z)"
  from update_effect[OF example_wf example_latent, of "Some 1"]
  have E: "fst (update example_guide (Some 1) example_z) = None"
    "count_stats ?st' = (count_stats example_guide + real (ncols example_z)) * (1 / 2)"
    "\<forall>v < 3. \<forall>m < 2. length (vertex_stats ?st' ! v) = 2
        \<and> vertex_stats ?st' ! v ! m
           = (vertex_stats example_guide ! v ! m + real (count_list (rows example_z ! v) (int m))) * (1 / 2)"
    "\<forall>v2 < 3. \<forall>v1 < v2. \<forall>a < 2. \<forall>b < 2.
        length (complete_stats ?st' ! pair_index v1 v2) = 2 * 2
        \<and> complete_stats ?st' ! pair_index v1 v2 ! (a * 2 + b)
           = (complete_stats example_guide ! pair_index v1 v2 ! (a * 2 + b)
              + real (count_list (zip (rows example_z ! v1) (rows example_z ! v2)) (int a, int b))) * (1 / 2)"
    unfolding example_decay sum.case Let_def
    by (simp_all add: example_guide_def)
  have v: "vertex_stats ?st' ! 0 ! 0 = (1 / 2 + 1) * (1 / 2)"
    using E(3)[rule_format, of 0 0] by (simp add: example_guide_def example_z_def)
  have c: "complete_stats ?st' ! pair_index 0 2 ! (0 * 2 + 1) = (1 / 4 + 1) * (1 / 2)"
    using E(4)[rule_format, of 2 0 0 1]
    by (simp add: example_guide_def example_z_def pair_index_def)
  have n: "count_stats ?st' = (1 + 1) * (1 / 2)"
    using E(2) by (simp add: example_guide_def example_z_def)
  show ?thesis using example_wf example_latent example_decay E(1) n v c by blast
qed




section \<open>Posterior means, edge scores and the propagation step\<close>






lemma example_updated_wf: "wf_guide example_updated"
  by code_simp






lemma dirmul_log_prob_reference: "dirmul_log_prob lgamma alpha counts = dirmul_reference lgamma alpha counts"
  unfolding dirmul_log_prob_def dirmul_reference_def
  by (induction counts) (simp_all add: add.commute)

lemma take_at_ok: "list_all (\<lambda>i. i < length xs) idx \<Longrightarrow> take_at xs idx = Inr (map (\<lambda>i. xs ! i) idx)"
  by (simp add: take_at_def)

lemma isub_same: "length b = length a \<Longrightarrow> isub a b = Inr (map2 (\<lambda>x y. x - y) a b)"
  by (simp add: isub_def)

text \<open>
  Claim C3. \<open>compute_edge_logits\<close> returns a vector of length \<open>K = V * (V - 1) / 2\<close> whose
  entry for every pair \<open>v1 < v2\<close> of the complete graph, tree edge or not, is the
  Dirichlet-multinomial score of the pair's row of \<open>complete_stats\<close> at concentration
  \<open>0.5 / M\<close> minus the scores of the rows of \<open>vertex_stats\<close> of both endpoints at
  concentration \<open>0.5\<close>; and \<open>_dirmul_log_prob\<close> equals the reference formula
  \<open>sum (lgamma (alpha + counts)) - sum (lgamma (1 + counts))\<close>, for any log-gamma function.
\<close>

theorem compute_edge_logits_scores:
  assumes "wf_guide st" and "jeffreys_priors st"
  shows "\<exists>logits.
           compute_edge_logits lgamma st = Inr logits
           \<and> length logits = (length (edges st) + 1) * (length (edges st) + 1 - 1) div 2
           \<and> (\<forall>v2 < length (edges st) + 1. \<forall>v1 < v2.
                 logits ! pair_index v1 v2
                   = dirmul_reference lgamma (0.5 / real_of_int (capacity st))
                       (complete_stats st ! pair_index v1 v2)
                     - dirmul_reference lgamma 0.5 (vertex_stats st ! v1)
                     - dirmul_reference lgamma 0.5 (vertex_stats st ! v2))
           \<and> (\<forall>alpha counts.
                 dirmul_log_prob lgamma alpha counts
                   = sum_list (map (\<lambda>c. lgamma (alpha + c)) counts)
                     - sum_list (map (\<lambda>c. lgamma (1 + c)) counts))"
proof -
  let ?V = "length (edges st) + 1"
  have g: "grid st = make_complete_graph ?V"
    and lv: "length (vertex_stats st) = ?V"
    and lc: "length (complete_stats st) = length (grid st)"
    using assms(1) by (auto simp: wf_guide_def)
  have vp: "vertex_prior st = 0.5" and ep: "edge_prior st = 0.5 / real_of_int (capacity st)"
    using assms(2) by (simp_all add: jeffreys_priors_def)
  define vl where "vl = map (dirmul_log_prob lgamma (vertex_prior st)) (vertex_stats st)"
  define el where "el = map (dirmul_log_prob lgamma (edge_prior st)) (complete_stats st)"
  have gb: "list_all (\<lambda>i. i < length vl) (map fst (grid st))"
    "list_all (\<lambda>i. i < length vl) (map snd (grid st))"
    using g lv by (auto simp: vl_def list_all_iff set_make_complete_graph)
  define l0 where "l0 = map (\<lambda>i. vl ! i) (map fst (grid st))"
  define l1 where "l1 = map (\<lambda>i. vl ! i) (map snd (grid st))"
  define e1 where "e1 = map2 (\<lambda>x y. x - y) el l0"
  define e2 where "e2 = map2 (\<lambda>x y. x - y) e1 l1"
  have len: "length el = length (grid st)" "length l0 = length (grid st)"
    "length l1 = length (grid st)" "length e1 = length (grid st)" "length e2 = length (grid st)"
    using lc by (simp_all add: el_def l0_def l1_def e1_def e2_def)
  have K: "length e2 = ?V * (?V - 1) div 2"
    using len g by (simp add: length_make_complete_graph)
  have t0: "take_at vl (map fst (grid st)) = Inr l0" using take_at_ok[OF gb(1)] by (simp add: l0_def)
  have t1: "take_at vl (map snd (grid st)) = Inr l1" using take_at_ok[OF gb(2)] by (simp add: l1_def)
  have s0: "isub el l0 = Inr e1" using len by (simp add: isub_same e1_def)
  have s1: "isub e1 l1 = Inr e2" using len by (simp add: isub_same e2_def)
  have res: "compute_edge_logits lgamma st = Inr e2"
    unfolding compute_edge_logits_def Let_def vl_def[symmetric] el_def[symmetric]
    using t0 s0 t1 s1 K by simp
  have cell: "e2 ! pair_index v1 v2
                   = dirmul_reference lgamma (0.5 / real_of_int (capacity st))
                       (complete_stats st ! pair_index v1 v2)
                     - dirmul_reference lgamma 0.5 (vertex_stats st ! v1)
                     - dirmul_reference lgamma 0.5 (vertex_stats st ! v2)"
    if "v2 < ?V" "v1 < v2" for v1 v2
  proof -
    let ?k = "pair_index v1 v2"
    have k: "?k < length (grid st)" "grid st ! ?k = (v1, v2)"
      using make_complete_graph_nth[OF that(2,1)] g by simp_all
    have v1: "v1 < ?V" using that by simp
    show ?thesis
      using k len lc lv v1 that(1)
      by (simp add: e2_def e1_def l0_def l1_def el_def vl_def vp ep dirmul_log_prob_reference)
  qed
  have "dirmul_log_prob lgamma alpha counts
                   = sum_list (map (\<lambda>c. lgamma (alpha + c)) counts)
                     - sum_list (map (\<lambda>c. lgamma (1 + c)) counts)" for alpha counts
    using dirmul_log_prob_reference[of lgamma alpha counts] by (simp add: dirmul_reference_def)
  then show ?thesis using res K cell by blast
qed

theorem compute_edge_logits_scores_witness:
  "wf_guide example_updated \<and> jeffreys_priors example_updated
   \<and> (\<exists>logits.
         compute_edge_logits (\<lambda>x. x) example_updated = Inr logits
         \<and> length logits = 3
         \<and> logits ! pair_index 0 2
             = dirmul_reference (\<lambda>x. x) (0.5 / 2) [1 / 8, 5 / 8, 1 / 8, 1 / 8]
               - dirmul_reference (\<lambda>x. x) 0.5 [3 / 4, 1 / 4]
               - dirmul_reference (\<lambda>x. x) 0.5 [1 / 4, 3 / 4])"
proof -
  have h: "jeffreys_priors example_updated"
    by (simp add: jeffreys_priors_def example_updated_def)
  from compute_edge_logits_scores[OF example_updated_wf h, of "\<lambda>x. x"]
  obtain logits where r: "compute_edge_logits (\<lambda>x. x) example_updated = Inr logits"
    and l: "length logits
        = (length (edges example_updated) + 1) * (length (edges example_updated) + 1 - 1) div 2"
    and c: "\<forall>v2 < length (edges example_updated) + 1. \<forall>v1 < v2.
                 logits ! pair_index v1 v2
                   = dirmul_reference (\<lambda>x. x) (0.5 / real_of_int (capacity example_updated))
                       (complete_stats example_updated ! pair_index v1 v2)
                     - dirmul_reference (\<lambda>x. x) 0.5 (vertex_stats example_updated ! v1)
                     - dirmul_reference (\<lambda>x. x) 0.5 (vertex_stats example_updated ! v2)"
    by blast
  have f: "complete_stats example_updated ! pair_index 0 2 = [1 / 8, 5 / 8, 1 / 8, 1 / 8]"
    "vertex_stats example_updated ! 0 = [3 / 4, 1 / 4]"
    "vertex_stats example_updated ! 2 = [1 / 4, 3 / 4]"
    "real_of_int (capacity example_updated) = 2"
    by (simp_all add: example_updated_def pair_index_def)
  have i: "2 < length (edges example_updated) + 1" "(0::nat) < 2"
    by (simp_all add: example_updated_def)
  have "length logits = 3" using l by (simp add: example_updated_def)
  moreover have "logits ! pair_index 0 2
             = dirmul_reference (\<lambda>x. x) (0.5 / 2) [1 / 8, 5 / 8, 1 / 8, 1 / 8]
               - dirmul_reference (\<lambda>x. x) 0.5 [3 / 4, 1 / 4]
               - dirmul_reference (\<lambda>x. x) 0.5 [1 / 4, 3 / 4]"
    using c[rule_format, OF i] unfolding f .
  ultimately show ?thesis using example_updated_wf h r by blast
qed

lemma scan_neighbors_filter:
  "list_all (\<lambda>v2. v2 < length z) nbrs \<Longrightarrow>
     scan_neighbors nbrs z p children =
       Inr (case filter (\<lambda>v2. z ! v2 \<noteq> None) nbrs of [] \<Rightarrow> p | xs \<Rightarrow> Some (last xs),
            children @ filter (\<lambda>v2. z ! v2 = None) nbrs)"
proof (induction nbrs z p children rule: scan_neighbors.induct)
  case (1 z v0 children)
  then show ?case by simp
next
  case (2 v2 vs z v0 children)
  then show ?case by (cases "z ! v2") (auto split: list.splits)
qed

lemma reshape_nth:
  assumes "length xs = M * M" "i < M" "j < M"
  shows "length (reshape M xs ! i) = M \<and> reshape M xs ! i ! j = xs ! (i * M + j)"
proof -
  have "i * M + M \<le> M * M"
  proof -
    have "i * M + M = (i + 1) * M" by simp
    also have "\<dots> \<le> M * M" using assms(2) by (intro mult_le_mono1) simp
    finally show ?thesis .
  qed
  then show ?thesis using assms by (simp add: reshape_def)
qed

lemma transpose_sq_length: "i < M \<Longrightarrow> length (transpose_sq M t ! i) = M"
  by (simp add: transpose_sq_def)

lemma transpose_sq_nth: "i < M \<Longrightarrow> j < M \<Longrightarrow> transpose_sq M t ! i ! j = t ! j ! i"
  by (simp add: transpose_sq_def)

text \<open>
  Claim C6. In the propagation step at a vertex \<open>v\<close> with no realized neighbour (the
  root) the latent state is drawn from row \<open>v\<close> of the vertex table. At a vertex whose
  only realized neighbour is its parent \<open>v0\<close>, the distribution is found by looking up
  the joint table at the edge index of \<open>(v, v0)\<close>, reshaping it to \<open>M\<close> by \<open>M\<close>,
  transposing it exactly when \<open>v0 > v\<close>, and taking the row of the parent's state
  \<open>z[v0]\<close>: its entry \<open>j\<close> is the joint cell \<open>(j, s)\<close> when \<open>v0 > v\<close> and \<open>(s, j)\<close> otherwise.
\<close>

theorem propagate_latent_distribution:
  assumes "v < length (tc_neighbors tc)"
      and "list_all (\<lambda>v2. v2 < length z) (tc_neighbors tc ! v)"
  shows "(filter (\<lambda>v2. z ! v2 \<noteq> None) (tc_neighbors tc ! v) = [] \<longrightarrow> v < length vertex_probs \<longrightarrow>
            latent_probs tc vertex_probs edge_probs z v = Inr (vertex_probs ! v))
       \<and> (filter (\<lambda>v2. z ! v2 \<noteq> None) (tc_neighbors tc ! v) = [v0] \<longrightarrow> z ! v0 = Some s \<longrightarrow>
            s < nat (tc_capacity tc) \<longrightarrow> tc_edge_index tc (v, v0) = Some e \<longrightarrow>
            e < length edge_probs \<longrightarrow>
            length (edge_probs ! e) = nat (tc_capacity tc) * nat (tc_capacity tc) \<longrightarrow>
            (\<exists>probs.
               latent_probs tc vertex_probs edge_probs z v = Inr probs
               \<and> probs = (if v0 > v
                          then transpose_sq (nat (tc_capacity tc))
                                 (reshape (nat (tc_capacity tc)) (edge_probs ! e))
                          else reshape (nat (tc_capacity tc)) (edge_probs ! e)) ! s
               \<and> length probs = nat (tc_capacity tc)
               \<and> (\<forall>j < nat (tc_capacity tc).
                     probs ! j = edge_probs ! e ! (if v0 > v then j * nat (tc_capacity tc) + s
                                                  else s * nat (tc_capacity tc) + j))))"
proof (intro conjI impI)
  assume "filter (\<lambda>v2. z ! v2 \<noteq> None) (tc_neighbors tc ! v) = []" "v < length vertex_probs"
  then show "latent_probs tc vertex_probs edge_probs z v = Inr (vertex_probs ! v)"
    using assms by (simp add: latent_probs_def scan_neighbors_filter)
next
  let ?M = "nat (tc_capacity tc)"
  assume a: "filter (\<lambda>v2. z ! v2 \<noteq> None) (tc_neighbors tc ! v) = [v0]" "z ! v0 = Some s"
    "s < ?M" "tc_edge_index tc (v, v0) = Some e" "e < length edge_probs"
    "length (edge_probs ! e) = ?M * ?M"
  define probs where "probs = (if v0 > v then transpose_sq ?M (reshape ?M (edge_probs ! e))
                          else reshape ?M (edge_probs ! e)) ! s"
  have r: "latent_probs tc vertex_probs edge_probs z v = Inr probs"
    using assms a by (simp add: latent_probs_def scan_neighbors_filter Let_def probs_def)
  have cells: "length probs = ?M
      \<and> (\<forall>j < ?M. probs ! j = edge_probs ! e ! (if v0 > v then j * ?M + s else s * ?M + j))"
  proof (cases "v0 > v")
    case True
    then have p: "probs = transpose_sq ?M (reshape ?M (edge_probs ! e)) ! s" by (simp add: probs_def)
    show ?thesis
      unfolding p using True a(3) reshape_nth[OF a(6) _ a(3)]
      by (simp add: transpose_sq_length transpose_sq_nth)
  next
    case False
    then have p: "probs = reshape ?M (edge_probs ! e) ! s" by (simp add: probs_def)
    show ?thesis
      unfolding p using False reshape_nth[OF a(6) a(3)] reshape_nth[OF a(6) a(3) a(3)] by simp
  qed
  show "\<exists>probs.
               latent_probs tc vertex_probs edge_probs z v = Inr probs
               \<and> probs = (if v0 > v
                          then transpose_sq ?M (reshape ?M (edge_probs ! e))
                          else reshape ?M (edge_probs ! e)) ! s
               \<and> length probs = ?M
               \<and> (\<forall>j < ?M. probs ! j = edge_probs ! e ! (if v0 > v then j * ?M + s else s * ?M + j))"
    using r cells probs_def by blast
qed

lemma example_default_edges:
  "default_edges 2 = Inr \<lparr>is_cpu_long = True, shape = [2, 2], entries = [0, 1, 1, 2]\<rparr>"
  by code_simp

lemma example_center: "find_center_of_tree [(0, 1), (1, 2)] = Inr 1"
  by code_simp

lemma example_neighbors: "build_neighbors (replicate 3 []) [(0, 1), (1, 2)] = Inr [[1], [2, 0], [1]]"
  by code_simp

lemma TreeCat_init_default:
  assumes "default_edges (int (length fs) - 1) = Inr t" "1 < cap" "is_cpu_long t"
    and "map int (shape t) = [int (length fs) - 1, 2]"
    and "EdgeGuide_init cap (pairs_of (entries t)) rate = Inr g"
    and "set_edges fs cap g (pairs_of (entries t)) = Inr tc"
  shows "TreeCat_init fs cap None rate = Inr tc"
  using assms by (simp add: TreeCat_init_def)

lemma set_edges_ok:
  assumes "find_center_of_tree es = Inr r" "build_neighbors (replicate (length fs) []) es = Inr nb"
  shows "set_edges fs cap g es =
           Inr \<lparr>tc_features = fs, tc_capacity = cap, tc_edge_guide = g\<lparr>edges := es\<rparr>,
                 tc_edges = es, tc_root = r, tc_neighbors = nb,
                 tc_edge_index = index_edges 0 es Map.empty\<rparr>"
  using assms by (simp add: set_edges_def)

lemma example_tree_init: "TreeCat_init [(), (), ()] 2 None (1 / 100) = Inr example_tree"
proof (rule TreeCat_init_default)
  show "default_edges (int (length [(), (), ()]) - 1)
          = Inr \<lparr>is_cpu_long = True, shape = [2, 2], entries = [0, 1, 1, 2]\<rparr>"
    by code_simp
  show "(1::int) < 2" by simp
  show "is_cpu_long \<lparr>is_cpu_long = True, shape = [2, 2], entries = [0, 1, 1, 2]\<rparr>" by simp
  show "map int (shape \<lparr>is_cpu_long = True, shape = [2, 2], entries = [0, 1, 1, 2]\<rparr>)
          = [int (length [(), (), ()]) - 1, 2]" by simp
  have p: "pairs_of (entries \<lparr>is_cpu_long = True, shape = [2, 2], entries = [0, 1, 1, 2]\<rparr>)
             = [(0, 1), (1, 2)]" by simp
  show "EdgeGuide_init 2 (pairs_of (entries \<lparr>is_cpu_long = True, shape = [2, 2], entries = [0, 1, 1, 2]\<rparr>))
          (1 / 100) = Inr example_guide"
    unfolding p by (rule example_guide_init)
  have n: "build_neighbors (replicate (length [(), (), ()]) []) [(0, 1), (1, 2)]
             = Inr [[1], [2, 0], [1]]"
    by code_simp
  have "set_edges [(), (), ()] 2 example_guide [(0, 1), (1, 2)] = Inr example_tree"
    unfolding set_edges_ok[OF example_center n] by (simp add: example_tree_def example_guide_def)
  then show "set_edges [(), (), ()] 2 example_guide
          (pairs_of (entries \<lparr>is_cpu_long = True, shape = [2, 2], entries = [0, 1, 1, 2]\<rparr>))
        = Inr example_tree"
    unfolding p .
qed

theorem propagate_latent_distribution_witness:
  "1 < length (tc_neighbors example_tree)
   \<and> list_all (\<lambda>v2. v2 < length [None :: nat option, None, None]) (tc_neighbors example_tree ! 1)
   \<and> latent_probs example_tree [[1 / 2, 1 / 2], [1 / 3, 2 / 3], [1 / 2, 1 / 2]]
        [[1 / 10, 2 / 10, 3 / 10, 4 / 10], [1 / 4, 1 / 4, 1 / 4, 1 / 4]] [None, None, None] 1
       = Inr [1 / 3, 2 / 3]
   \<and> 0 < length (tc_neighbors example_tree)
   \<and> list_all (\<lambda>v2. v2 < length [None, Some (1::nat), None]) (tc_neighbors example_tree ! 0)
   \<and> latent_probs example_tree [[1 / 2, 1 / 2], [1 / 3, 2 / 3], [1 / 2, 1 / 2]]
        [[1 / 10, 2 / 10, 3 / 10, 4 / 10], [1 / 4, 1 / 4, 1 / 4, 1 / 4]] [None, Some 1, None] 0
       = Inr [2 / 10, 4 / 10]"
proof -
  let ?vp = "[[1 / 2, 1 / 2], [1 / 3, 2 / 3], [1 / 2, 1 / 2 :: real]]"
  let ?ep = "[[1 / 10, 2 / 10, 3 / 10, 4 / 10], [1 / 4, 1 / 4, 1 / 4, 1 / 4 :: real]]"
  have a1: "1 < length (tc_neighbors example_tree)"
    and a2: "list_all (\<lambda>v2. v2 < length [None :: nat option, None, None]) (tc_neighbors example_tree ! 1)"
    and b1: "0 < length (tc_neighbors example_tree)"
    and b2: "list_all (\<lambda>v2. v2 < length [None, Some (1::nat), None]) (tc_neighbors example_tree ! 0)"
    by (simp_all add: example_tree_def)
  have root: "latent_probs example_tree ?vp ?ep [None, None, None] 1 = Inr [1 / 3, 2 / 3]"
    using propagate_latent_distribution[OF a1 a2, where vertex_probs = ?vp and edge_probs = ?ep]
    by (simp add: example_tree_def)
  have f: "filter (\<lambda>v2. [None, Some (1::nat), None] ! v2 \<noteq> None) (tc_neighbors example_tree ! 0) = [1]"
    "[None, Some (1::nat), None] ! 1 = Some 1" "1 < nat (tc_capacity example_tree)"
    "tc_edge_index example_tree (0, 1) = Some 0" "0 < length ?ep"
    "length (?ep ! 0) = nat (tc_capacity example_tree) * nat (tc_capacity example_tree)"
    by (simp_all add: example_tree_def)
  from propagate_latent_distribution[OF b1 b2, where ?v0.0 = 1 and s = 1 and e = 0
      and edge_probs = ?ep and vertex_probs = ?vp, THEN conjunct2, rule_format, OF f]
  obtain probs where p: "latent_probs example_tree ?vp ?ep [None, Some 1, None] 0 = Inr probs"
    and q: "probs = (if 1 > (0::nat)
                          then transpose_sq (nat (tc_capacity example_tree))
                                 (reshape (nat (tc_capacity example_tree)) (?ep ! 0))
                          else reshape (nat (tc_capacity example_tree)) (?ep ! 0)) ! 1"
    by blast
  have "probs = [2 / 10, 4 / 10]"
    unfolding q by (simp add: example_tree_def transpose_sq_def reshape_def upt_rec numeral_eq_Suc)
  then show ?thesis using a1 a2 b1 b2 root p by simp
qed

section \<open>The decay factor and the effective row count\<close>

lemma decay_factor_cases:
  "decay_factor st nr z =
     (if \<not> int (ncols z) \<le> effective_num_rows nr z \<or> \<not> count_stats st > 0 then Inl AssertionError
      else if effective_num_rows nr z = 0 then Inl ZeroDivisionError
      else Inr (min ((1 + annealing_rate st) / (1 + real (ncols z) / count_stats st))
                    (1 / (1 + real (ncols z) / real_of_int (effective_num_rows nr z)))))"
  by (simp add: decay_factor_def effective_num_rows_def Let_def)

lemma decay_factor_range:
  assumes "decay_factor st nr z = Inr d" "0 < annealing_rate st"
  shows "0 < d \<and> d \<le> 1"
proof -
  let ?b = "real (ncols z)" and ?n = "real_of_int (effective_num_rows nr z)"
  from assms(1) have le: "int (ncols z) \<le> effective_num_rows nr z" and c: "count_stats st > 0"
    and n0: "effective_num_rows nr z \<noteq> 0"
    and d: "d = min ((1 + annealing_rate st) / (1 + ?b / count_stats st)) (1 / (1 + ?b / ?n))"
    by (auto simp: decay_factor_cases split: if_splits)
  have npos: "0 < ?n" using le n0 by linarith
  have q1: "0 \<le> ?b / count_stats st" using c by simp
  have q2: "0 \<le> ?b / ?n" using npos by simp
  have a: "0 < (1 + annealing_rate st) / (1 + ?b / count_stats st)"
    using assms(2) q1 by (intro divide_pos_pos) linarith+
  have s: "0 < 1 / (1 + ?b / ?n)" using q2 by (intro divide_pos_pos) linarith+
  have s1: "1 / (1 + ?b / ?n) \<le> 1" using q2 by (simp add: field_simps)
  define A where "A = (1 + annealing_rate st) / (1 + ?b / count_stats st)"
  define S where "S = 1 / (1 + ?b / ?n)"
  have "0 < A" "0 < S" "S \<le> 1" "d = min A S" using a s s1 d by (simp_all add: A_def S_def)
  then show ?thesis by (simp add: min_def)
qed

lemma decay_factor_error:
  assumes "decay_factor st nr z = Inl e" "int (ncols z) \<le> effective_num_rows nr z" "0 < count_stats st"
  shows "e = ZeroDivisionError \<and> effective_num_rows nr z = 0"
  using assms by (auto simp: decay_factor_cases split: if_splits)

lemma update_annealing_rate: "annealing_rate (snd (update st nr z)) = annealing_rate st"
  by (auto simp: update_def Let_def split: sum.splits prod.splits option.splits)

lemma update_count_stats:
  "count_stats (snd (update st nr z)) =
     (case decay_factor st nr z of Inl e \<Rightarrow> count_stats st
      | Inr d \<Rightarrow> (count_stats st + real (ncols z)) * d)"
  by (auto simp: update_def Let_def split: sum.splits prod.splits option.splits)

lemma update_count_pos:
  assumes "0 < annealing_rate st" "0 < count_stats st"
  shows "0 < count_stats (snd (update st nr z))"
proof (cases "decay_factor st nr z")
  case (Inl e)
  then show ?thesis using assms by (simp add: update_count_stats)
next
  case (Inr d)
  then have "0 < d" using decay_factor_range assms(1) by blast
  then show ?thesis using Inr assms(2) by (simp add: update_count_stats add_pos_nonneg)
qed

lemma update_all_snoc: "update_all st (calls @ [(n, z)]) = snd (update (update_all st calls) n z)"
  by (induction st calls rule: update_all.induct) auto

lemma update_all_inv:
  assumes "0 < annealing_rate st" "0 < count_stats st"
  shows "0 < annealing_rate (update_all st calls) \<and> 0 < count_stats (update_all st calls)"
  using assms
proof (induction st calls rule: update_all.induct)
  case (1 st)
  then show ?case by simp
next
  case (2 st n z calls)
  then show ?case by (simp add: update_annealing_rate update_count_pos)
qed

lemma init_pos:
  "EdgeGuide_init cap es rate = Inr st \<Longrightarrow> 0 < annealing_rate st \<and> count_stats st = 1"
  by (auto simp: EdgeGuide_init_def Let_def split: if_splits)

text \<open>
  Claim C2. In every update call with \<open>batch_size \<le> num_rows\<close> and \<open>count_stats > 0\<close> the
  decay factor is \<open>min ((1 + annealing_rate) / (1 + batch_size / count_stats))
  (1 / (1 + batch_size / num_rows))\<close>, where \<open>num_rows\<close> is the batch size when it is not
  supplied, and this factor multiplies the incremented \<open>count_stats\<close>. The quotient
  \<open>batch_size / num_rows\<close> of the formula is the one the code evaluates: for
  \<open>num_rows = 0\<close> (an empty batch) it raises and no factor is used.
\<close>

theorem update_decay_factor:
  assumes "int (ncols z) \<le> effective_num_rows num_rows z" and "0 < count_stats st"
  shows "decay_factor st num_rows z =
           (if effective_num_rows num_rows z = 0 then Inl ZeroDivisionError
            else Inr (min ((1 + annealing_rate st) / (1 + real (ncols z) / count_stats st))
                          (1 / (1 + real (ncols z) / real_of_int (effective_num_rows num_rows z)))))
         \<and> effective_num_rows None z = int (ncols z)
         \<and> count_stats (snd (update st num_rows z)) =
             (case decay_factor st num_rows z of
                Inl e \<Rightarrow> count_stats st
              | Inr decay \<Rightarrow> (count_stats st + real (ncols z)) * decay)"
  using assms by (simp add: decay_factor_cases update_count_stats effective_num_rows_def)

theorem update_decay_factor_witness:
  "int (ncols example_z) \<le> effective_num_rows (Some 4) example_z
   \<and> 0 < count_stats example_guide
   \<and> decay_factor example_guide (Some 4) example_z = Inr (101 / 200)
   \<and> count_stats (snd (update example_guide (Some 4) example_z)) = 101 / 100"
  using update_decay_factor[of example_z "Some 4" example_guide]
  by (simp add: effective_num_rows_def example_z_def example_guide_def)

text \<open>
  Claim C7. Start from the state of one pseudo-observation, built with a positive
  annealing rate, and run any sequence of update calls with \<open>batch_size \<le> num_rows\<close>.
  Then \<open>count_stats\<close> is strictly positive after every call, and the decay factor
  computed in a call lies in the interval \<open>(0, 1]\<close>; the only call that computes none is
  the one whose quotient \<open>batch_size / num_rows\<close> divides by zero.
\<close>

theorem update_sequence_bounded:
  assumes "EdgeGuide_init cap es rate = Inr st0"
      and "\<forall>c \<in> set calls. int (ncols (snd c)) \<le> effective_num_rows (fst c) (snd c)"
  shows "(\<forall>i \<le> length calls. 0 < count_stats (update_all st0 (take i calls)))
       \<and> (\<forall>i < length calls.
            case decay_factor (update_all st0 (take i calls)) (fst (calls ! i)) (snd (calls ! i)) of
              Inr decay \<Rightarrow> 0 < decay \<and> decay \<le> 1
            | Inl e \<Rightarrow> e = ZeroDivisionError \<and> effective_num_rows (fst (calls ! i)) (snd (calls ! i)) = 0)"
proof -
  have pos0: "0 < annealing_rate st0" "0 < count_stats st0"
    using init_pos[OF assms(1)] by simp_all
  have inv: "0 < annealing_rate (update_all st0 cs) \<and> 0 < count_stats (update_all st0 cs)" for cs
    using update_all_inv[OF pos0] .
  have "case decay_factor (update_all st0 (take i calls)) (fst (calls ! i)) (snd (calls ! i)) of
              Inr decay \<Rightarrow> 0 < decay \<and> decay \<le> 1
            | Inl e \<Rightarrow> e = ZeroDivisionError \<and> effective_num_rows (fst (calls ! i)) (snd (calls ! i)) = 0"
    if "i < length calls" for i
  proof -
    let ?st = "update_all st0 (take i calls)"
    have le: "int (ncols (snd (calls ! i))) \<le> effective_num_rows (fst (calls ! i)) (snd (calls ! i))"
      using assms(2) that by simp
    show ?thesis
    proof (cases "decay_factor ?st (fst (calls ! i)) (snd (calls ! i))")
      case (Inl e)
      then show ?thesis using decay_factor_error[OF Inl le] inv by simp
    next
      case (Inr d)
      then show ?thesis using decay_factor_range[OF Inr] inv by simp
    qed
  qed
  then show ?thesis using inv by blast
qed

theorem update_sequence_bounded_witness:
  "EdgeGuide_init 2 [(0, 1), (1, 2)] (1 / 100) = Inr example_guide
   \<and> int (ncols example_z) \<le> effective_num_rows (Some 1) example_z
   \<and> 0 < count_stats (update_all example_guide [(Some 1, example_z)])
   \<and> decay_factor example_guide (Some 1) example_z = Inr (1 / 2)
   \<and> 0 < (1 / 2 :: real) \<and> (1 / 2 :: real) \<le> 1"
proof -
  have calls: "\<forall>c \<in> set [(Some 1, example_z)]. int (ncols (snd c)) \<le> effective_num_rows (fst c) (snd c)"
    by (simp add: effective_num_rows_def example_z_def)
  have d: "decay_factor example_guide (Some 1) example_z = Inr (1 / 2)"
    by (simp add: decay_factor_def example_z_def example_guide_def)
  from update_sequence_bounded[OF example_guide_init calls]
  have "0 < count_stats (update_all example_guide (take 1 [(Some 1, example_z)]))"
    by (metis le_refl length_Cons list.size(3) One_nat_def)
  then show ?thesis
    using example_guide_init calls d by simp
qed

section \<open>Precondition failures\<close>

text \<open>
  Claim C9. Each listed violation fails at once, with no statistics and no model
  result: a capacity of at most 1 or an edge tensor whose shape is not \<open>(V - 1, 2)\<close> at
  construction, a data list whose length differs from the feature list or whose
  columns are all missing in a model call, and \<open>batch_size > num_rows\<close> in an update,
  which leaves the state as it was. The failure is the assertion's; only when the
  feature list is empty and no edges are given does building the default edges raise
  before the assertions are reached.
\<close>

theorem precondition_failures:
  "(cap \<le> 1 \<longrightarrow>
      TreeCat_init fs cap edges_opt rate =
        Inl (if edges_opt = None \<and> fs = [] then RuntimeError else AssertionError))
   \<and> (map int (shape t) \<noteq> [int (length fs) - 1, 2] \<longrightarrow>
        TreeCat_init fs cap (Some t) rate = Inl AssertionError)
   \<and> (length data \<noteq> length (tc_features tc) \<longrightarrow> model tc body data = Inl AssertionError)
   \<and> (list_all (\<lambda>column. column = None) data \<longrightarrow> model tc body data = Inl AssertionError)
   \<and> (effective_num_rows num_rows z < int (ncols z) \<longrightarrow>
        update st num_rows z = (Some AssertionError, st))"
proof -
  have 1: "TreeCat_init fs cap edges_opt rate =
        Inl (if edges_opt = None \<and> fs = [] then RuntimeError else AssertionError)" if "cap \<le> 1"
    using that by (cases edges_opt) (auto simp: TreeCat_init_def default_edges_def Let_def)
  have 2: "TreeCat_init fs cap (Some t) rate = Inl AssertionError"
    if "map int (shape t) \<noteq> [int (length fs) - 1, 2]"
    using that by (simp add: TreeCat_init_def Let_def)
  have 3: "model tc body data = Inl AssertionError"
    if "length data \<noteq> length (tc_features tc) \<or> list_all (\<lambda>column. column = None) data"
    using that by (auto simp: model_def)
  have 4: "update st num_rows z = (Some AssertionError, st)"
    if "effective_num_rows num_rows z < int (ncols z)"
    using that by (simp add: update_def decay_factor_def effective_num_rows_def Let_def)
  show ?thesis using 1 2 3 4 by blast
qed

theorem precondition_failures_witness:
  "TreeCat_init [()] 1 None (1 / 100) = Inl AssertionError
   \<and> TreeCat_init [(), ()] 8 (Some \<lparr>is_cpu_long = True, shape = [2, 2], entries = [0, 1, 1, 2]\<rparr>)
        (1 / 100) = Inl AssertionError
   \<and> model example_tree (\<lambda>tc d. Inr d) [Some (1::nat)] = Inl AssertionError
   \<and> model example_tree (\<lambda>tc d. Inr d) [None :: nat option, None, None] = Inl AssertionError
   \<and> update example_guide (Some 0) example_z = (Some AssertionError, example_guide)"
  using precondition_failures[of 1 "[()]" None "1 / 100"
      "\<lparr>is_cpu_long = True, shape = [2, 2], entries = [0, 1, 1, 2]\<rparr>"
      "[Some (1::nat)]" example_tree "\<lambda>tc d. Inr d" "Some 0" example_z example_guide]
    precondition_failures[of 8 "[(), ()]" None "1 / 100"
      "\<lparr>is_cpu_long = True, shape = [2, 2], entries = [0, 1, 1, 2]\<rparr>"
      "[None :: nat option, None, None]" example_tree "\<lambda>tc d. Inr d" "Some 0" example_z example_guide]
  by (simp add: example_tree_def example_z_def effective_num_rows_def)

section \<open>The listing of the tree printer\<close>

lemma rev_postorder: "rev (postorder names d t) = render names d t"
proof (induction t arbitrary: d)
  case (Node v ts)
  have "map (\<lambda>x. rev (postorder names (Suc d) x)) ts = map (render names (Suc d)) ts"
    using Node.IH by simp
  then show ?case by (simp add: rev_concat rev_map comp_def cong: map_cong)
qed

lemma find_largest:
  fixes xs :: "nat list"
  assumes "sorted (rev xs)" "m \<in> set xs" "P m" "\<forall>x \<in> set xs. P x \<longrightarrow> x \<le> m"
  shows "find P xs = Some m"
  using assms
proof (induction xs)
  case Nil
  then show ?case by simp
next
  case (Cons x xs)
  have ge: "\<forall>y \<in> set xs. y \<le> x" using Cons.prems(1) by (simp add: sorted_append)
  show ?case
  proof (cases "P x")
    case True
    then have "x \<le> m" using Cons.prems(4) by simp
    moreover have "m \<le> x" using Cons.prems(2) ge by auto
    ultimately show ?thesis using True by simp
  next
    case False
    then have "m \<in> set xs" using Cons.prems(2,3) by auto
    moreover have "sorted (rev xs)" using Cons.prems(1) by (simp add: sorted_append)
    ultimately show ?thesis using False Cons.IH Cons.prems(3,4) by simp
  qed
qed

lemma root_in_labels: "root_of t \<in> set (labels t)"
  by (cases t) simp

lemma print_loop_push:
  assumes "u < length nb" "find (\<lambda>n. n \<notin> set seen) (rev (sort (nb ! u))) = Some n"
  shows "print_loop nb names (u # rest) seen lines = print_loop nb names (n # u # rest) (n # seen) lines"
  by (subst print_loop.simps) (simp add: assms)

lemma print_loop_pop:
  assumes "u < length nb" "find (\<lambda>n. n \<notin> set seen) (rev (sort (nb ! u))) = None" "u < length names"
  shows "print_loop nb names (u # rest) seen lines
           = print_loop nb names rest seen (lines @ [(length rest, names ! u)])"
  by (subst print_loop.simps) (simp add: assms)

lemma print_loop_children:
  assumes v: "v < length nb" "v < length names"
    and adj: "set (nb ! v) = set_option p \<union> set (map root_of (cs @ ds))"
    and srt: "sorted (map root_of (cs @ ds))"
    and dis: "distinct (concat (map labels (cs @ ds)))"
    and sub: "\<And>c rest seen lines. c \<in> set cs \<Longrightarrow> root_of c \<in> set seen \<Longrightarrow> v \<in> set seen \<Longrightarrow>
                set (labels c) \<inter> set seen = {root_of c} \<Longrightarrow>
                \<exists>seen'. set seen' = set seen \<union> set (labels c)
                   \<and> print_loop nb names (root_of c # rest) seen lines
                       = print_loop nb names rest seen' (lines @ postorder names (length rest) c)"
    and seen: "v \<in> set seen" "set_option p \<subseteq> set seen" "\<forall>d \<in> set ds. root_of d \<in> set seen"
      "\<forall>c \<in> set cs. set (labels c) \<inter> set seen = {}"
  shows "\<exists>seen'. set seen' = set seen \<union> \<Union> (set ` labels ` set cs)
           \<and> print_loop nb names (v # rest) seen lines
               = print_loop nb names rest seen'
                   (lines @ concat (map (postorder names (Suc (length rest))) (rev cs))
                      @ [(length rest, names ! v)])"
  using adj srt dis sub seen
proof (induction cs arbitrary: ds seen lines rule: rev_induct)
  case Nil
  have "\<forall>x \<in> set (nb ! v). x \<in> set seen"
    using Nil.prems(1,5,6,7) by auto
  then have "find (\<lambda>n. n \<notin> set seen) (rev (sort (nb ! v))) = None"
    by (simp add: find_None_iff)
  from print_loop_pop[OF v(1) this v(2)] show ?case by auto
next
  case (snoc c cs)
  let ?m = "root_of c"
  have cseen: "set (labels c) \<inter> set seen = {}" using snoc.prems(8) by simp
  have mun: "?m \<notin> set seen" using cseen root_in_labels[of c] by auto
  have m_in: "?m \<in> set (rev (sort (nb ! v)))" using snoc.prems(1) by simp
  have le: "\<forall>x \<in> set (rev (sort (nb ! v))). x \<notin> set seen \<longrightarrow> x \<le> ?m"
  proof (intro ballI impI)
    fix x assume x: "x \<in> set (rev (sort (nb ! v)))" "x \<notin> set seen"
    then have "x \<in> set_option p \<union> set (map root_of ((cs @ [c]) @ ds))"
      using snoc.prems(1) by simp
    then have "x \<in> set (map root_of cs) \<or> x = ?m"
      using x(2) snoc.prems(6,7) by auto
    moreover have "\<forall>y \<in> set (map root_of cs). y \<le> ?m"
      using snoc.prems(2) by (simp add: sorted_append)
    ultimately show "x \<le> ?m" by auto
  qed
  have "find (\<lambda>n. n \<notin> set seen) (rev (sort (nb ! v))) = Some ?m"
    using find_largest[of "rev (sort (nb ! v))" ?m "\<lambda>n. n \<notin> set seen"] m_in mun le by simp
  from print_loop_push[OF v(1) this]
  have step1: "print_loop nb names (v # rest) seen lines
                 = print_loop nb names (?m # v # rest) (?m # seen) lines" .
  have "set (labels c) \<inter> set (?m # seen) = {?m}"
    using cseen root_in_labels[of c] by auto
  from snoc.prems(4)[of c "?m # seen" "v # rest" lines, OF _ _ _ this]
  obtain seen2 where s2: "set seen2 = set (?m # seen) \<union> set (labels c)"
    and step2: "print_loop nb names (?m # v # rest) (?m # seen) lines
                  = print_loop nb names (v # rest) seen2 (lines @ postorder names (length (v # rest)) c)"
    using snoc.prems(5) by auto
  have s2': "set seen2 = set seen \<union> set (labels c)"
    using s2 root_in_labels[of c] by auto
  have d1: "set (nb ! v) = set_option p \<union> set (map root_of (cs @ (c # ds)))"
    using snoc.prems(1) by simp
  have d2: "sorted (map root_of (cs @ (c # ds)))" using snoc.prems(2) by simp
  have d3: "distinct (concat (map labels (cs @ (c # ds))))" using snoc.prems(3) by simp
  have d4: "\<And>c' rest seen lines. c' \<in> set cs \<Longrightarrow> root_of c' \<in> set seen \<Longrightarrow> v \<in> set seen \<Longrightarrow>
                set (labels c') \<inter> set seen = {root_of c'} \<Longrightarrow>
                \<exists>seen'. set seen' = set seen \<union> set (labels c')
                   \<and> print_loop nb names (root_of c' # rest) seen lines
                       = print_loop nb names rest seen' (lines @ postorder names (length rest) c')"
    using snoc.prems(4) by simp
  have d5: "v \<in> set seen2" "set_option p \<subseteq> set seen2" using snoc.prems(5,6) s2' by auto
  have d6: "\<forall>d \<in> set (c # ds). root_of d \<in> set seen2"
    using snoc.prems(7) s2' root_in_labels[of c] by auto
  have disj: "\<forall>c' \<in> set cs. set (labels c') \<inter> set (labels c) = {}"
    using snoc.prems(3) by auto
  have d7: "\<forall>c' \<in> set cs. set (labels c') \<inter> set seen2 = {}"
    using snoc.prems(8) disj s2' by auto
  from snoc.IH[OF d1 d2 d3 d4 d5 d6 d7, of "lines @ postorder names (length (v # rest)) c"]
  obtain seen3 where s3: "set seen3 = set seen2 \<union> \<Union> (set ` labels ` set cs)"
    and step3: "print_loop nb names (v # rest) seen2 (lines @ postorder names (length (v # rest)) c)
       = print_loop nb names rest seen3
           ((lines @ postorder names (length (v # rest)) c)
              @ concat (map (postorder names (Suc (length rest))) (rev cs))
              @ [(length rest, names ! v)])"
    by blast
  have "set seen3 = set seen \<union> \<Union> (set ` labels ` set (cs @ [c]))"
    using s3 s2' by auto
  moreover have "print_loop nb names (v # rest) seen lines
     = print_loop nb names rest seen3
         (lines @ concat (map (postorder names (Suc (length rest))) (rev (cs @ [c])))
            @ [(length rest, names ! v)])"
    using step1 step2 step3 by simp
  ultimately show ?case by blast
qed

lemma labels_child_subset: "c \<in> set ts \<Longrightarrow> set (labels c) \<subseteq> set (concat (map labels ts))"
  by auto

lemma distinct_child:
  assumes "distinct (concat (map labels ts))" "c \<in> set ts"
  shows "distinct (labels c)"
  using assms by (induction ts) auto

lemma print_loop_subtree:
  assumes "tree_adj nb p t" "distinct (labels t)" "\<forall>l \<in> set (labels t). l < length names"
    and "set_option p \<subseteq> set seen" "set (labels t) \<inter> set seen = {root_of t}"
  shows "\<exists>seen'. set seen' = set seen \<union> set (labels t)
           \<and> print_loop nb names (root_of t # rest) seen lines
               = print_loop nb names rest seen' (lines @ postorder names (length rest) t)"
  using assms
proof (induction t arbitrary: p rest seen lines)
  case (Node v ts)
  have v: "v < length nb" "v < length names" using Node.prems(1,3) by simp_all
  have adj: "set (nb ! v) = set_option p \<union> set (map root_of (ts @ []))"
    and srt: "sorted (map root_of (ts @ []))"
    using Node.prems(1) by simp_all
  have dis0: "distinct (concat (map labels ts))" and vnot: "v \<notin> set (concat (map labels ts))"
    using Node.prems(2) by simp_all
  have dis: "distinct (concat (map labels (ts @ [])))" using dis0 by simp
  have vseen: "v \<in> set seen" using Node.prems(5) by auto
  have lt: "\<forall>l \<in> set (concat (map labels ts)). l < length names"
    using Node.prems(3) by simp
  have adjc: "\<forall>c \<in> set ts. tree_adj nb (Some v) c" using Node.prems(1) by simp
  have sub: "\<exists>seen'. set seen' = set seen1 \<union> set (labels c)
                   \<and> print_loop nb names (root_of c # rest1) seen1 lines1
                       = print_loop nb names rest1 seen' (lines1 @ postorder names (length rest1) c)"
    if c: "c \<in> set ts" and r: "root_of c \<in> set seen1" and vs: "v \<in> set seen1"
      and i: "set (labels c) \<inter> set seen1 = {root_of c}" for c rest1 seen1 lines1
  proof (rule Node.IH[OF c])
    show "tree_adj nb (Some v) c" using adjc c by blast
    show "distinct (labels c)" using distinct_child[OF dis0 c] .
    show "\<forall>l \<in> set (labels c). l < length names"
      using lt labels_child_subset[OF c] by blast
    show "set_option (Some v) \<subseteq> set seen1" using vs by simp
    show "set (labels c) \<inter> set seen1 = {root_of c}" using i .
  qed
  have inter: "set (concat (map labels ts)) \<inter> set seen = {}"
    using Node.prems(5) vnot by auto
  have unseen: "\<forall>c \<in> set ts. set (labels c) \<inter> set seen = {}"
    using inter labels_child_subset by blast
  have ds: "\<forall>d \<in> set []. root_of d \<in> set seen" by simp
  from print_loop_children[of v nb names p ts "[]" seen rest lines, OF v adj srt dis sub vseen Node.prems(4) ds unseen]
  obtain seen' where s: "set seen' = set seen \<union> \<Union> (set ` labels ` set ts)"
    and e: "print_loop nb names (v # rest) seen lines
               = print_loop nb names rest seen'
                   (lines @ concat (map (postorder names (Suc (length rest))) (rev ts))
                      @ [(length rest, names ! v)])"
    by blast
  have l: "set (labels (Node v ts)) = insert v (\<Union> (set ` labels ` set ts))" by simp
  have s': "set seen' = set seen \<union> set (labels (Node v ts))"
    unfolding l s using vseen by (simp add: insert_absorb Un_assoc)
  have e': "print_loop nb names (root_of (Node v ts) # rest) seen lines
               = print_loop nb names rest seen' (lines @ postorder names (length rest) (Node v ts))"
    unfolding root_of.simps postorder.simps using e by simp
  show ?case by (rule exI[of _ seen']) (use s' e' in blast)
qed

lemma add_edge_length: "add_edge nb e = Inr nb' \<Longrightarrow> length nb' = length nb"
  by (cases e) (auto simp: add_edge_def Let_def split: if_splits)

lemma build_neighbors_length: "build_neighbors nb es = Inr nb' \<Longrightarrow> length nb' = length nb"
proof (induction nb es rule: build_neighbors.induct)
  case (1 nb)
  then show ?case by simp
next
  case (2 nb e es)
  then show ?case by (auto split: sum.splits dest: add_edge_length)
qed

lemma tree_adj_labels_bound: "tree_adj nb p t \<Longrightarrow> \<forall>l \<in> set (labels t). l < length nb"
proof (induction t arbitrary: p)
  case (Node v ts)
  then show ?case by auto
qed

text \<open>
  Claim C10, as amended. \<open>print_tree\<close> produces the depth-indented depth-first listing
  of the tree rooted at the given root, the computed centre when none is given, in
  which the children of every vertex are listed in increasing order of their vertex
  ids: the traversal takes the largest unseen neighbour first and the lines are
  reversed at the end. Feature names play no part in the order.
\<close>

theorem print_tree_listing:
  assumes "length names = 1 + length es"
    and "build_neighbors (replicate (length names) []) es = Inr nb"
    and "tree_adj nb None t" and "distinct (labels t)"
    and "root_name \<in> set names" and "index_of names root_name = root_of t"
  shows "print_tree es names (Some root_name)
           = Inr (join [CHR 0x0A] (map format_line (render names 0 t)))
       \<and> (\<forall>c. find_center_of_tree es = Inr c \<longrightarrow> c < length names \<longrightarrow>
              print_tree es names None = print_tree es names (Some (names ! c)))"
proof -
  have len: "length nb = length names"
    using build_neighbors_length[OF assms(2)] by simp
  have bound: "\<forall>l \<in> set (labels t). l < length names"
    using tree_adj_labels_bound[OF assms(3)] len by simp
  have i: "set (labels t) \<inter> set [root_of t] = {root_of t}"
    using root_in_labels[of t] by simp
  from print_loop_subtree[OF assms(3,4) bound _ i, of "[]" "[]"]
  obtain seen' where
    "print_loop nb names [root_of t] [root_of t] [] = print_loop nb names [] seen' (postorder names 0 t)"
    by auto
  then have loop: "print_loop nb names [root_of t] [root_of t] [] = Inr (postorder names 0 t)"
    by (simp add: print_loop.simps)
  have 1: "print_tree es names (Some root_name)
           = Inr (join [CHR 0x0A] (map format_line (render names 0 t)))"
    using assms(1,2,5,6) loop
    by (simp add: print_tree_def resolve_root_def rev_postorder)
  have 2: "print_tree es names None = print_tree es names (Some (names ! c))"
    if "find_center_of_tree es = Inr c" "c < length names" for c
    using that by (simp add: print_tree_def resolve_root_def)
  show ?thesis using 1 2 by blast
qed

theorem print_tree_listing_witness:
  "length [''r'', ''z'', ''a'', ''m''] = 1 + length [(0, 1), (0, 2), (2, 3 :: nat)]
   \<and> build_neighbors (replicate (length [''r'', ''z'', ''a'', ''m'']) []) [(0, 1), (0, 2), (2, 3)]
        = Inr [[2, 1], [0], [3, 0], [2]]
   \<and> tree_adj [[2, 1], [0], [3, 0], [2]] None example_rtree
   \<and> distinct (labels example_rtree)
   \<and> index_of [''r'', ''z'', ''a'', ''m''] ''r'' = root_of example_rtree
   \<and> print_tree [(0, 1), (0, 2), (2, 3)] [''r'', ''z'', ''a'', ''m''] (Some ''r'')
        = Inr (join [CHR 0x0A] [''r'', ''  z'', ''  a'', ''    m''])"
proof -
  have a: "length [''r'', ''z'', ''a'', ''m''] = 1 + length [(0, 1), (0, 2), (2, 3 :: nat)]" by simp
  have b: "build_neighbors (replicate (length [''r'', ''z'', ''a'', ''m'']) []) [(0, 1), (0, 2), (2, 3)]
        = Inr [[2, 1], [0], [3, 0], [2]]" by code_simp
  have c: "tree_adj [[2, 1], [0], [3, 0], [2]] None example_rtree"
    by (auto simp: example_rtree_def)
  have d: "distinct (labels example_rtree)" by (simp add: example_rtree_def)
  have e: "''r'' \<in> set [''r'', ''z'', ''a'', ''m'']" by simp
  have f: "index_of [''r'', ''z'', ''a'', ''m''] ''r'' = root_of example_rtree"
    by (simp add: index_of_def example_rtree_def)
  have r: "map format_line (render [''r'', ''z'', ''a'', ''m''] 0 example_rtree)
             = [''r'', ''  z'', ''  a'', ''    m'']"
    by (simp add: example_rtree_def format_line_def)
  from print_tree_listing[OF a b c d e f]
  have "print_tree [(0, 1), (0, 2), (2, 3)] [''r'', ''z'', ''a'', ''m''] (Some ''r'')
        = Inr (join [CHR 0x0A] [''r'', ''  z'', ''  a'', ''    m''])"
    unfolding r by blast
  then show ?thesis using a b c d f by blast
qed

text \<open>
  The claim as stated has the children in reverse-lexicographic order of their names.
  A root with the children 1 and 2 lists them in this order whatever they are called,
  so the names \<open>a, z\<close> come out in lexicographic order.
\<close>

theorem print_tree_name_order_counterexample:
  "print_tree [(0, 1), (0, 2)] [''r'', ''a'', ''z''] (Some ''r'')
     = Inr (join [CHR 0x0A] [''r'', ''  a'', ''  z''])
   \<and> \<not> reverse_lexicographic [''a'', ''z'']
   \<and> print_tree [(0, 1), (0, 2)] [''r'', ''z'', ''a''] (Some ''r'')
     = Inr (join [CHR 0x0A] [''r'', ''  z'', ''  a''])"
proof -
  have 1: "print_tree [(0, 1), (0, 2)] [''r'', ''a'', ''z''] (Some ''r'')
     = Inr (join [CHR 0x0A] [''r'', ''  a'', ''  z''])" by code_simp
  have 2: "print_tree [(0, 1), (0, 2)] [''r'', ''z'', ''a''] (Some ''r'')
     = Inr (join [CHR 0x0A] [''r'', ''  z'', ''  a''])" by code_simp
  have 3: "\<not> reverse_lexicographic [''a'', ''z'']" by (simp add: reverse_lexicographic_def)
  show ?thesis using 1 2 3 by blast
qed

section \<open>The centre of a tree by leaf stripping\<close>

lemma is_tree_basic:
  "is_tree S E \<Longrightarrow> finite S \<and> S \<noteq> {} \<and> E \<subseteq> S \<times> S \<and> sym E \<and> irrefl E"
proof (induction rule: is_tree.induct)
  case (single v)
  then show ?case by (simp add: sym_def irrefl_def)
next
  case (leaf S E u v)
  then have "finite (insert v S)" "insert v S \<noteq> {}" by simp_all
  moreover have "E \<union> {(u, v), (v, u)} \<subseteq> insert v S \<times> insert v S" using leaf by auto
  moreover have "sym (E \<union> {(u, v), (v, u)})" using leaf unfolding sym_def by blast
  moreover have "u \<noteq> v" using leaf by blast
  then have "irrefl (E \<union> {(u, v), (v, u)})" using leaf unfolding irrefl_def by blast
  ultimately show ?case by blast
qed

lemma is_tree_isolated:
  "is_tree S E \<Longrightarrow> v \<in> S \<Longrightarrow> nbrs_in E S v = {} \<Longrightarrow> S = {v}"
proof (induction arbitrary: v rule: is_tree.induct)
  case (single x)
  then show ?case by simp
next
  case (leaf S E u x)
  show ?case
  proof (cases "v = x")
    case True
    have "u \<in> nbrs_in (E \<union> {(u, x), (x, u)}) (insert x S) x"
      using leaf.hyps by (simp add: nbrs_in_def)
    then show ?thesis using leaf.prems True by blast
  next
    case False
    then have vS: "v \<in> S" using leaf.prems by simp
    have "nbrs_in E S v \<subseteq> nbrs_in (E \<union> {(u, x), (x, u)}) (insert x S) v"
      by (auto simp: nbrs_in_def)
    then have "nbrs_in E S v = {}" using leaf.prems(2) by blast
    then have "S = {v}" using leaf.IH[OF vS] by simp
    then have "u = v" using leaf.hyps by simp
    then have "x \<in> nbrs_in (E \<union> {(u, x), (x, u)}) (insert x S) v" by (simp add: nbrs_in_def)
    then show ?thesis using leaf.prems(2) by blast
  qed
qed

lemma is_tree_has_leaf: "is_tree S E \<Longrightarrow> \<exists>v \<in> S. card (nbrs_in E S v) \<le> 1"
proof (induction rule: is_tree.induct)
  case (single v)
  then show ?case by (simp add: nbrs_in_def)
next
  case (leaf S E u v)
  have sub: "E \<subseteq> S \<times> S" using is_tree_basic[OF leaf.hyps(1)] by simp
  have "nbrs_in (E \<union> {(u, v), (v, u)}) (insert v S) v = {u}"
    using leaf.hyps(2,3) sub by (auto simp: nbrs_in_def)
  then show ?case by simp
qed

lemma nbrs_finite: "finite U \<Longrightarrow> finite (nbrs_in E U v)"
  by (simp add: nbrs_in_def)

lemma is_tree_remove_leaf:
  "is_tree S E \<Longrightarrow> v \<in> S \<Longrightarrow> card (nbrs_in E S v) \<le> 1 \<Longrightarrow> S \<noteq> {v} \<Longrightarrow>
     is_tree (S - {v}) (E \<inter> (S - {v}) \<times> (S - {v}))"
proof (induction arbitrary: v rule: is_tree.induct)
  case (single x)
  then show ?case by simp
next
  case (leaf S E u x)
  note basic = is_tree_basic[OF leaf.hyps(1)]
  have sub: "E \<subseteq> S \<times> S" and fin: "finite S" and irr: "irrefl E" using basic by simp_all
  let ?E = "E \<union> {(u, x), (x, u)}" and ?S = "insert x S"
  show ?case
  proof (cases "v = x")
    case True
    have "?S - {v} = S" using True leaf.hyps(3) by auto
    moreover have "?E \<inter> (S \<times> S) = E" using sub leaf.hyps(3) by auto
    ultimately show ?thesis using leaf.hyps(1) by simp
  next
    case False
    then have vS: "v \<in> S" using leaf.prems(1) by simp
    show ?thesis
    proof (cases "S = {v}")
      case True
      then have "E = {}" using sub irr by (auto simp: irrefl_def)
      have "?S - {v} = {x}" using True False by auto
      moreover have "?E \<inter> ({x} \<times> {x}) = {}" using \<open>E = {}\<close> True leaf.hyps(2) False by auto
      ultimately show ?thesis using is_tree.single[of x] by simp
    next
      case notsingle: False
      have subn: "nbrs_in E S v \<subseteq> nbrs_in ?E ?S v" by (auto simp: nbrs_in_def)
      have finn: "finite (nbrs_in ?E ?S v)" using fin by (simp add: nbrs_finite)
      have "card (nbrs_in E S v) \<le> card (nbrs_in ?E ?S v)" using card_mono[OF finn subn] .
      then have c: "card (nbrs_in E S v) \<le> 1" using leaf.prems(2) by simp
      have uv: "u \<noteq> v"
      proof
        assume "u = v"
        then have xin: "x \<in> nbrs_in ?E ?S v" by (simp add: nbrs_in_def)
        have "nbrs_in E S v \<noteq> {}" using is_tree_isolated[OF leaf.hyps(1) vS] notsingle by blast
        then obtain w where w: "w \<in> nbrs_in E S v" by blast
        then have "w \<noteq> x" using leaf.hyps(3) by (auto simp: nbrs_in_def)
        then have "{w, x} \<subseteq> nbrs_in ?E ?S v" "card {w, x} = 2" using w xin subn by auto
        then have "2 \<le> card (nbrs_in ?E ?S v)" using card_mono[OF finn, of "{w, x}"] by simp
        then show False using leaf.prems(2) by simp
      qed
      from leaf.IH[OF vS c notsingle]
      have t: "is_tree (S - {v}) (E \<inter> (S - {v}) \<times> (S - {v}))" .
      have "is_tree (insert x (S - {v})) (E \<inter> (S - {v}) \<times> (S - {v}) \<union> {(u, x), (x, u)})"
        using t uv leaf.hyps(2,3) by (intro is_tree.leaf) auto
      moreover have "insert x (S - {v}) = ?S - {v}" using False by auto
      moreover have "E \<inter> (S - {v}) \<times> (S - {v}) \<union> {(u, x), (x, u)}
                       = ?E \<inter> (?S - {v}) \<times> (?S - {v})"
        using uv False leaf.hyps(2,3) sub by auto
      ultimately show ?thesis by simp
    qed
  qed
qed

lemma nbrs_restrict: "v \<in> U \<Longrightarrow> nbrs_in (E \<inter> U \<times> U) U v = nbrs_in E U v"
  by (auto simp: nbrs_in_def)

lemma nbrs_remove: "nbrs_in E (U - {u}) w = nbrs_in E U w - {u}"
  by (auto simp: nbrs_in_def)

lemma short_list: "length xs \<le> 1 \<Longrightarrow> xs = [] \<or> (\<exists>x. xs = [x])"
  by (cases xs) auto

lemma strip_step_isolated:
  assumes inv: "strip_inv E U nb (u # q)" and e: "nb ! u = []"
  shows "strip_neighbors u (sort (nb ! u)) nb q
           = Inr (nb, q @ filter (\<lambda>w. card (nbrs_in E (U - {u}) w) = 1) (nb ! u))
       \<and> strip_inv E (U - {u}) nb (q @ filter (\<lambda>w. card (nbrs_in E (U - {u}) w) = 1) (nb ! u))"
proof -
  have q: "set (u # q) = {x \<in> U. card (nbrs_in E U x) \<le> 1}" and dq: "distinct (u # q)"
    and fin: "finite U" and tr: "U = {} \<or> is_tree U (E \<inter> U \<times> U)"
    and ent: "\<forall>x \<in> U. x < length nb \<and> distinct (nb ! x) \<and> set (nb ! x) = nbrs_in E U x"
    using inv by (simp_all add: strip_inv_def)
  have uU: "u \<in> U" using q by auto
  then have tree: "is_tree U (E \<inter> U \<times> U)" using tr by auto
  have "nbrs_in E U u = {}" using ent uU e by auto
  then have "nbrs_in (E \<inter> U \<times> U) U u = {}" using nbrs_restrict[OF uU] by simp
  from is_tree_isolated[OF tree uU this] have U: "U = {u}" .
  have "set q \<subseteq> {u}" using q U by auto
  moreover have "u \<notin> set q" using dq by simp
  ultimately have qe: "q = []" by (cases q) auto
  have "strip_inv E (U - {u}) nb q"
    using U qe by (simp add: strip_inv_def)
  then show ?thesis using e by simp
qed

lemma strip_step_leaf:
  assumes inv: "strip_inv E U nb (u # q)" and e: "nb ! u = [w]"
  shows "\<exists>nb'. strip_neighbors u (sort (nb ! u)) nb q
           = Inr (nb', q @ filter (\<lambda>w. card (nbrs_in E (U - {u}) w) = 1) (nb ! u))
       \<and> strip_inv E (U - {u}) nb' (q @ filter (\<lambda>w. card (nbrs_in E (U - {u}) w) = 1) (nb ! u))"
proof -
  let ?U = "U - {u}"
  have q: "set (u # q) = {x \<in> U. card (nbrs_in E U x) \<le> 1}" and dq: "distinct (u # q)"
    and fin: "finite U" and tr: "U = {} \<or> is_tree U (E \<inter> U \<times> U)"
    and ent: "\<forall>x \<in> U. x < length nb \<and> distinct (nb ! x) \<and> set (nb ! x) = nbrs_in E U x"
    using inv by (simp_all add: strip_inv_def)
  have uU: "u \<in> U" and cu: "card (nbrs_in E U u) \<le> 1" using q by auto
  then have tree: "is_tree U (E \<inter> U \<times> U)" using tr by auto
  note basic = is_tree_basic[OF tree]
  have symU: "\<And>a b. a \<in> U \<Longrightarrow> b \<in> U \<Longrightarrow> (a, b) \<in> E \<Longrightarrow> (b, a) \<in> E"
    using basic unfolding sym_def by blast
  have irrU: "\<And>a. a \<in> U \<Longrightarrow> (a, a) \<notin> E"
    using basic unfolding irrefl_def by blast
  have "set (nb ! u) = nbrs_in E U u" using ent uU by blast
  then have nu: "nbrs_in E U u = {w}" using e by simp
  then have wU: "w \<in> U" and uw: "(u, w) \<in> E" by (auto simp: nbrs_in_def)
  have wu: "(w, u) \<in> E" using symU[OF uU wU uw] .
  have neq: "w \<noteq> u" using irrU[OF uU] uw by auto
  have wl: "w < length nb" and dw: "distinct (nb ! w)" and sw: "set (nb ! w) = nbrs_in E U w"
    using ent wU by auto
  have uin: "u \<in> set (nb ! w)" using sw wu uU by (simp add: nbrs_in_def)
  define nb' where "nb' = nb[w := remove1 u (nb ! w)]"
  have nbw: "nb' ! w = remove1 u (nb ! w)" using wl by (simp add: nb'_def)
  have setw: "set (nb' ! w) = nbrs_in E ?U w"
    using dw sw by (simp add: nbw nbrs_remove)
  have disw: "distinct (nb' ! w)" using dw by (simp add: nbw)
  have lenw: "length (nb' ! w) = card (nbrs_in E ?U w)"
    using distinct_card[OF disw] setw by simp
  define q' where "q' = q @ filter (\<lambda>w. card (nbrs_in E ?U w) = 1) (nb ! u)"
  have q'_eq: "q' = (if length (nb' ! w) = 1 then q @ [w] else q)"
    by (simp add: q'_def e lenw)
  have run: "strip_neighbors u (sort (nb ! u)) nb q = Inr (nb', q')"
    using wl uin by (simp add: e Let_def nb'_def[symmetric] q'_eq)
  have finU: "finite ?U" using fin by simp
  have Une: "U \<noteq> {u}" using wU neq by auto
  have "card (nbrs_in (E \<inter> U \<times> U) U u) \<le> 1" using cu nbrs_restrict[OF uU] by simp
  from is_tree_remove_leaf[OF tree uU this Une]
  have "is_tree ?U ((E \<inter> U \<times> U) \<inter> ?U \<times> ?U)" .
  moreover have "(E \<inter> U \<times> U) \<inter> ?U \<times> ?U = E \<inter> ?U \<times> ?U" by auto
  ultimately have tree': "is_tree ?U (E \<inter> ?U \<times> ?U)" by simp
  have other: "nbrs_in E ?U x = nbrs_in E U x" if x: "x \<in> ?U" "x \<noteq> w" for x
  proof -
    have "u \<notin> nbrs_in E U x"
    proof
      assume "u \<in> nbrs_in E U x"
      then have "(x, u) \<in> E" by (simp add: nbrs_in_def)
      then have "(u, x) \<in> E" using symU[of x u] x uU by auto
      then have "x \<in> nbrs_in E U u" using x by (simp add: nbrs_in_def)
      then show False using nu x by simp
    qed
    then show ?thesis by (simp add: nbrs_remove)
  qed
  have ent': "\<forall>x \<in> ?U. x < length nb' \<and> distinct (nb' ! x) \<and> set (nb' ! x) = nbrs_in E ?U x"
  proof
    fix x assume x: "x \<in> ?U"
    show "x < length nb' \<and> distinct (nb' ! x) \<and> set (nb' ! x) = nbrs_in E ?U x"
    proof (cases "x = w")
      case True
      then show ?thesis using wl disw setw by (simp add: nb'_def)
    next
      case False
      then have "nb' ! x = nb ! x" by (simp add: nb'_def)
      then show ?thesis using ent x other[OF x False] by (simp add: nb'_def)
    qed
  qed
  have cw: "card (nbrs_in E U w) = card (nbrs_in E ?U w) + 1"
  proof -
    have "nbrs_in E U w = insert u (nbrs_in E ?U w)" using wu uU wU by (auto simp: nbrs_in_def)
    moreover have "u \<notin> nbrs_in E ?U w" by (simp add: nbrs_in_def)
    moreover have "finite (nbrs_in E ?U w)" using finU by (rule nbrs_finite)
    ultimately show ?thesis by simp
  qed
  have unq: "u \<notin> set q" and disq: "distinct q" using dq by simp_all
  have qset: "set q = {x \<in> U. card (nbrs_in E U x) \<le> 1} - {u}" using q unq by auto
  have w_in_q: "w \<in> set q \<longleftrightarrow> card (nbrs_in E ?U w) = 0"
    using qset wU neq cw by auto
  have dq': "distinct q'"
    using disq w_in_q by (simp add: q'_eq lenw)
  have sq': "set q' = {x \<in> ?U. card (nbrs_in E ?U x) \<le> 1}"
  proof (rule set_eqI)
    fix x
    show "x \<in> set q' \<longleftrightarrow> x \<in> {x \<in> ?U. card (nbrs_in E ?U x) \<le> 1}"
    proof (cases "x = w")
      case True
      have "w \<in> set q' \<longleftrightarrow> card (nbrs_in E ?U w) = 0 \<or> card (nbrs_in E ?U w) = 1"
        using w_in_q by (auto simp: q'_eq lenw)
      also have "\<dots> \<longleftrightarrow> card (nbrs_in E ?U w) \<le> 1" by auto
      finally show ?thesis using True wU neq by simp
    next
      case False
      then have "x \<in> set q' \<longleftrightarrow> x \<in> set q" by (auto simp: q'_eq)
      also have "\<dots> \<longleftrightarrow> x \<in> U \<and> x \<noteq> u \<and> card (nbrs_in E U x) \<le> 1" using qset by auto
      also have "\<dots> \<longleftrightarrow> x \<in> ?U \<and> card (nbrs_in E ?U x) \<le> 1"
        using other[of x] False by auto
      finally show ?thesis by simp
    qed
  qed
  have "strip_inv E ?U nb' q'"
    unfolding strip_inv_def using finU tree' ent' dq' sq' by blast
  then show ?thesis using run unfolding q'_def by blast
qed

lemma strip_step:
  assumes inv: "strip_inv E U nb (u # q)"
  shows "u \<in> U \<and> u < length nb
       \<and> (\<exists>nb'. strip_neighbors u (sort (nb ! u)) nb q
               = Inr (nb', q @ filter (\<lambda>w. card (nbrs_in E (U - {u}) w) = 1) (nb ! u))
           \<and> strip_inv E (U - {u}) nb' (q @ filter (\<lambda>w. card (nbrs_in E (U - {u}) w) = 1) (nb ! u)))"
proof -
  have q: "set (u # q) = {x \<in> U. card (nbrs_in E U x) \<le> 1}"
    and ent: "\<forall>x \<in> U. x < length nb \<and> distinct (nb ! x) \<and> set (nb ! x) = nbrs_in E U x"
    using inv by (simp_all add: strip_inv_def)
  have uU: "u \<in> U" and cu: "card (nbrs_in E U u) \<le> 1" using q by auto
  have ul: "u < length nb" and du: "distinct (nb ! u)" and su: "set (nb ! u) = nbrs_in E U u"
    using ent uU by auto
  have "length (nb ! u) \<le> 1" using distinct_card[OF du] su cu by simp
  then consider "nb ! u = []" | w where "nb ! u = [w]" using short_list by blast
  then show ?thesis
  proof cases
    case 1
    then show ?thesis using strip_step_isolated[OF inv 1] uU ul by blast
  next
    case 2
    then show ?thesis using strip_step_leaf[OF inv 2] uU ul by blast
  qed
qed

lemma strip_order_Cons:
  assumes "u < length nb" "strip_neighbors u (sort (nb ! u)) nb q = Inr (nb', q')"
    "strip_order nb' q' = Inr us"
  shows "strip_order nb (u # q) = Inr (u # us)"
  using assms by simp

lemma strip_order_complete:
  assumes "strip_inv E U nb q"
  shows "\<exists>us rest. strip_order nb q = Inr us \<and> distinct us \<and> set us = U \<and> us = q @ rest"
  using assms
proof (induction "card U" arbitrary: U nb q rule: less_induct)
  case less
  have fin: "finite U" and tr: "U = {} \<or> is_tree U (E \<inter> U \<times> U)"
    and qs: "set q = {u \<in> U. card (nbrs_in E U u) \<le> 1}"
    using less.prems by (simp_all add: strip_inv_def)
  show ?case
  proof (cases q)
    case Nil
    have "U = {}"
    proof (rule ccontr)
      assume ne: "U \<noteq> {}"
      then have t: "is_tree U (E \<inter> U \<times> U)" using tr by simp
      from is_tree_has_leaf[OF t] obtain v where v: "v \<in> U" "card (nbrs_in (E \<inter> U \<times> U) U v) \<le> 1"
        by blast
      then have "v \<in> set q" using qs nbrs_restrict[OF v(1)] by simp
      then show False using Nil by simp
    qed
    then show ?thesis using Nil by simp
  next
    case (Cons u q0)
    define q' where "q' = q0 @ filter (\<lambda>w. card (nbrs_in E (U - {u}) w) = 1) (nb ! u)"
    from strip_step[OF less.prems[unfolded Cons]]
    obtain nb' where uU: "u \<in> U" and ul: "u < length nb"
      and run: "strip_neighbors u (sort (nb ! u)) nb q0 = Inr (nb', q')"
      and inv': "strip_inv E (U - {u}) nb' q'"
      unfolding q'_def by blast
    have "card (U - {u}) < card U" using fin uU by (rule card_Diff1_less)
    from less.hyps[OF this inv']
    obtain us rest where us: "strip_order nb' q' = Inr us" "distinct us" "set us = U - {u}"
      "us = q' @ rest" by blast
    have "strip_order nb q = Inr (u # us)"
      unfolding Cons using strip_order_Cons[OF ul run us(1)] .
    moreover have "distinct (u # us)" using us(2,3) by simp
    moreover have "set (u # us) = U" using us(3) uU by auto
    moreover have "u # us = q @ (filter (\<lambda>w. card (nbrs_in E (U - {u}) w) = 1) (nb ! u) @ rest)"
      using us(4) Cons by (simp add: q'_def)
    ultimately show ?thesis by blast
  qed
qed

lemma strip_leaves_order:
  "strip_leaves nb q v =
     (case strip_order nb q of
        Inl e \<Rightarrow> Inl e
      | Inr us \<Rightarrow> Inr (if us = [] then v else Some (last us)))"
proof (induction nb q arbitrary: v rule: strip_order.induct)
  case (1 nb)
  then show ?case by simp
next
  case (2 nb u queue)
  show ?case
  proof (cases "u < length nb")
    case False
    then show ?thesis by simp
  next
    case True
    show ?thesis
    proof (cases "strip_neighbors u (sort (nb ! u)) nb queue")
      case (Inl e)
      then show ?thesis using True by simp
    next
      case (Inr r)
      obtain nb' q' where r: "r = (nb', q')" by (cases r)
      have "strip_leaves nb' q' (Some u) =
              (case strip_order nb' q' of
                 Inl e \<Rightarrow> Inl e
               | Inr us \<Rightarrow> Inr (if us = [] then Some u else Some (last us)))"
        using "2.IH"[of "(nb', q')" nb' q' "Some u"] True Inr r by simp
      then show ?thesis using True Inr r by (auto split: sum.splits)
    qed
  qed
qed

lemma add_edge_ok:
  assumes "v1 < length nb" "v2 < length nb"
  shows "\<exists>nb'. add_edge nb (v1, v2) = Inr nb' \<and> length nb' = length nb
           \<and> (\<forall>x < length nb.
                 set (nb' ! x) = set (nb ! x) \<union> {w. (x, w) \<in> {(v1, v2), (v2, v1)}}
                 \<and> (distinct (nb ! x) \<longrightarrow> distinct (nb' ! x)))"
proof -
  define nb1 where "nb1 = nb[v1 := List.insert v2 (nb ! v1)]"
  define nb2 where "nb2 = nb1[v2 := List.insert v1 (nb1 ! v2)]"
  have r: "add_edge nb (v1, v2) = Inr nb2"
    using assms by (simp add: add_edge_def Let_def nb1_def nb2_def)
  have l: "length nb2 = length nb" by (simp add: nb1_def nb2_def)
  have c: "set (nb2 ! x) = set (nb ! x) \<union> {w. (x, w) \<in> {(v1, v2), (v2, v1)}}
           \<and> (distinct (nb ! x) \<longrightarrow> distinct (nb2 ! x))" if "x < length nb" for x
    using that assms by (auto simp: nb1_def nb2_def nth_list_update)
  show ?thesis using r l c by blast
qed

lemma build_neighbors_ok:
  assumes "list_all (\<lambda>(a, b). a < length nb \<and> b < length nb) es"
  shows "\<exists>nb'. build_neighbors nb es = Inr nb' \<and> length nb' = length nb
           \<and> (\<forall>x < length nb.
                 set (nb' ! x) = set (nb ! x) \<union> {w. (x, w) \<in> edge_rel es}
                 \<and> (distinct (nb ! x) \<longrightarrow> distinct (nb' ! x)))"
  using assms
proof (induction es arbitrary: nb)
  case Nil
  then show ?case by (simp add: edge_rel_def)
next
  case (Cons e es)
  obtain v1 v2 where e: "e = (v1, v2)" by (cases e)
  have v: "v1 < length nb" "v2 < length nb" using Cons.prems e by simp_all
  from add_edge_ok[OF v] obtain nb1 where a: "add_edge nb (v1, v2) = Inr nb1"
    and l1: "length nb1 = length nb"
    and c1: "\<forall>x < length nb.
                 set (nb1 ! x) = set (nb ! x) \<union> {w. (x, w) \<in> {(v1, v2), (v2, v1)}}
                 \<and> (distinct (nb ! x) \<longrightarrow> distinct (nb1 ! x))"
    by blast
  have "list_all (\<lambda>(a, b). a < length nb1 \<and> b < length nb1) es"
    using Cons.prems l1 by simp
  from Cons.IH[OF this] obtain nb2 where b: "build_neighbors nb1 es = Inr nb2"
    and l2: "length nb2 = length nb1"
    and c2: "\<forall>x < length nb1.
                 set (nb2 ! x) = set (nb1 ! x) \<union> {w. (x, w) \<in> edge_rel es}
                 \<and> (distinct (nb1 ! x) \<longrightarrow> distinct (nb2 ! x))"
    by blast
  have r: "build_neighbors nb (e # es) = Inr nb2" using a b e by simp
  have er: "edge_rel (e # es) = {(v1, v2), (v2, v1)} \<union> edge_rel es"
    by (auto simp: edge_rel_def e)
  have "set (nb2 ! x) = set (nb ! x) \<union> {w. (x, w) \<in> edge_rel (e # es)}
                 \<and> (distinct (nb ! x) \<longrightarrow> distinct (nb2 ! x))" if x: "x < length nb" for x
  proof -
    have 1: "set (nb1 ! x) = set (nb ! x) \<union> {w. (x, w) \<in> {(v1, v2), (v2, v1)}}"
      and 2: "distinct (nb ! x) \<longrightarrow> distinct (nb1 ! x)" using c1 x by blast+
    have 3: "set (nb2 ! x) = set (nb1 ! x) \<union> {w. (x, w) \<in> edge_rel es}"
      and 4: "distinct (nb1 ! x) \<longrightarrow> distinct (nb2 ! x)" using c2 x l1 by simp_all
    have "set (nb2 ! x) = set (nb ! x) \<union> {w. (x, w) \<in> edge_rel (e # es)}"
      unfolding 3 1 er by blast
    then show ?thesis using 2 4 by blast
  qed
  then show ?case using r l1 l2 by auto
qed

lemma initial_inv_gen:
  assumes t: "is_tree {..<n} (edge_rel es)"
  shows "\<exists>nb. build_neighbors (replicate n []) es = Inr nb
           \<and> strip_inv (edge_rel es) {..<n} nb (initial_queue nb)"
proof -
  let ?E = "edge_rel es"
  note basic = is_tree_basic[OF t]
  have sub: "?E \<subseteq> {..<n} \<times> {..<n}" using basic by simp
  have ends: "\<forall>e \<in> set es. fst e < n \<and> snd e < n"
  proof
    fix e assume "e \<in> set es"
    then have "(fst e, snd e) \<in> ?E" by (simp add: edge_rel_def)
    then show "fst e < n \<and> snd e < n" using sub by blast
  qed
  have "list_all (\<lambda>(a, b). a < length (replicate n ([] :: nat list))
                         \<and> b < length (replicate n ([] :: nat list))) es"
    unfolding list_all_iff using ends by (simp add: case_prod_beta)
  from build_neighbors_ok[OF this]
  obtain nb where b: "build_neighbors (replicate n []) es = Inr nb"
    and l: "length nb = length (replicate n ([] :: nat list))"
    and c0: "\<forall>x < length (replicate n ([] :: nat list)).
                 set (nb ! x) = set (replicate n [] ! x) \<union> {w. (x, w) \<in> ?E}
                 \<and> (distinct (replicate n ([] :: nat list) ! x) \<longrightarrow> distinct (nb ! x))"
    by blast
  have ln: "length nb = n" using l by simp
  have c: "set (nb ! x) = {w. (x, w) \<in> ?E} \<and> distinct (nb ! x)" if "x < n" for x
    using c0[rule_format, of x] that by simp
  have nn: "nbrs_in ?E {..<n} x = {w. (x, w) \<in> ?E}" for x
    using sub by (auto simp: nbrs_in_def)
  have ent: "\<forall>u \<in> {..<n}. u < length nb \<and> distinct (nb ! u) \<and> set (nb ! u) = nbrs_in ?E {..<n} u"
    using c ln nn by simp
  have len: "length (nb ! u) = card (nbrs_in ?E {..<n} u)" if "u < n" for u
    using distinct_card[of "nb ! u"] c[OF that] nn by simp
  have dq: "distinct (initial_queue nb)" by (simp add: initial_queue_def)
  have sq: "set (initial_queue nb) = {u \<in> {..<n}. card (nbrs_in ?E {..<n} u) \<le> 1}"
  proof (rule set_eqI)
    fix u
    show "u \<in> set (initial_queue nb) \<longleftrightarrow> u \<in> {u \<in> {..<n}. card (nbrs_in ?E {..<n} u) \<le> 1}"
    proof (cases "u < n")
      case True
      then show ?thesis using len[OF True] ln by (simp add: initial_queue_def)
    next
      case False
      then show ?thesis using ln by (simp add: initial_queue_def)
    qed
  qed
  have E: "?E \<inter> {..<n} \<times> {..<n} = ?E" using sub by blast
  have "strip_inv ?E {..<n} nb (initial_queue nb)"
    unfolding strip_inv_def E
  proof (intro conjI)
    show "finite {..<n}" by simp
    show "{..<n} = {} \<or> is_tree {..<n} ?E" using t by (rule disjI2)
    show "\<forall>u \<in> {..<n}. u < length nb \<and> distinct (nb ! u) \<and> set (nb ! u) = nbrs_in ?E {..<n} u"
      by (rule ent)
    show "distinct (initial_queue nb)" by (rule dq)
    show "set (initial_queue nb) = {u \<in> {..<n}. card (nbrs_in ?E {..<n} u) \<le> 1}" by (rule sq)
  qed
  with b show ?thesis by (intro exI conjI)
qed

lemma edge_rel_Cons: "edge_rel ((a, b) # es) = {(a, b), (b, a)} \<union> edge_rel es"
  by (auto simp: edge_rel_def)

lemma path_is_tree:
  "ps \<noteq> [] \<Longrightarrow> distinct ps \<Longrightarrow> is_tree (set ps) (edge_rel (zip ps (tl ps)))"
proof (induction ps rule: list_nonempty_induct)
  case (single x)
  show ?case using is_tree.single[of x] by (simp add: edge_rel_def)
next
  case (cons x xs)
  obtain y ys where xs: "xs = y # ys" using cons.hyps by (cases xs) auto
  have t: "is_tree (set xs) (edge_rel (zip xs (tl xs)))" using cons by simp
  have "is_tree (insert x (set xs)) (edge_rel (zip xs (tl xs)) \<union> {(y, x), (x, y)})"
    using t xs cons.prems by (intro is_tree.leaf) auto
  moreover have "edge_rel (zip (x # xs) (tl (x # xs)))
                   = edge_rel (zip xs (tl xs)) \<union> {(y, x), (x, y)}"
    by (auto simp: xs edge_rel_Cons)
  ultimately show ?case by simp
qed

lemma path_zip:
  "(a, b) \<in> set (zip ps (tl ps)) \<longleftrightarrow> (\<exists>k. k + 1 < length ps \<and> a = ps ! k \<and> b = ps ! (k + 1))"
proof
  assume "(a, b) \<in> set (zip ps (tl ps))"
  then have "\<exists>k. ps ! k = a \<and> tl ps ! k = b \<and> k < length ps \<and> k < length (tl ps)"
    by (simp add: in_set_zip)
  then obtain k where k: "k < length ps" "k < length (tl ps)" "a = ps ! k" "b = tl ps ! k"
    by blast
  then have "k + 1 < length ps" "b = ps ! (k + 1)" by (simp_all add: nth_tl)
  then show "\<exists>k. k + 1 < length ps \<and> a = ps ! k \<and> b = ps ! (k + 1)" using k(3) by blast
next
  assume "\<exists>k. k + 1 < length ps \<and> a = ps ! k \<and> b = ps ! (k + 1)"
  then obtain k where k: "k + 1 < length ps" "a = ps ! k" "b = ps ! (k + 1)" by blast
  then have "k < length ps" "k < length (tl ps)" "b = tl ps ! k" by (simp_all add: nth_tl)
  then show "(a, b) \<in> set (zip ps (tl ps))" using k(2) by (simp add: in_set_zip) blast
qed

lemma path_edge:
  assumes d: "distinct ps" and i: "i < length ps" and j: "j < length ps"
  shows "(ps ! i, ps ! j) \<in> edge_rel (zip ps (tl ps)) \<longleftrightarrow> (i + 1 = j \<or> j + 1 = i)"
proof -
  have 1: "(ps ! x, ps ! y) \<in> set (zip ps (tl ps)) \<longleftrightarrow> x + 1 = y"
    if x: "x < length ps" and y: "y < length ps" for x y
  proof
    assume "(ps ! x, ps ! y) \<in> set (zip ps (tl ps))"
    then obtain k where k: "k + 1 < length ps" "ps ! x = ps ! k" "ps ! y = ps ! (k + 1)"
      unfolding path_zip by blast
    have "x = k" using k(1,2) x d by (simp add: nth_eq_iff_index_eq)
    moreover have "y = k + 1" using k(1,3) y d by (simp add: nth_eq_iff_index_eq)
    ultimately show "x + 1 = y" by simp
  next
    assume "x + 1 = y"
    then show "(ps ! x, ps ! y) \<in> set (zip ps (tl ps))" unfolding path_zip using y by auto
  qed
  show ?thesis using 1[OF i j] 1[OF j i] by (auto simp: edge_rel_def)
qed

lemma path_nbrs:
  assumes d: "distinct ps" and hi: "hi < length ps" and i: "lo \<le> i" "i \<le> hi"
  shows "nbrs_in (edge_rel (zip ps (tl ps))) ((!) ps ` {lo..hi}) (ps ! i)
           = (!) ps ` {j \<in> {lo..hi}. i + 1 = j \<or> j + 1 = i}"
proof (rule set_eqI)
  fix w
  have il: "i < length ps" using i hi by simp
  show "w \<in> nbrs_in (edge_rel (zip ps (tl ps))) ((!) ps ` {lo..hi}) (ps ! i)
          \<longleftrightarrow> w \<in> (!) ps ` {j \<in> {lo..hi}. i + 1 = j \<or> j + 1 = i}"
  proof
    assume "w \<in> nbrs_in (edge_rel (zip ps (tl ps))) ((!) ps ` {lo..hi}) (ps ! i)"
    then obtain j where j: "j \<in> {lo..hi}" "w = ps ! j"
      and e: "(ps ! i, ps ! j) \<in> edge_rel (zip ps (tl ps))"
      by (auto simp: nbrs_in_def)
    have "j < length ps" using j(1) hi by simp
    then have "i + 1 = j \<or> j + 1 = i" using path_edge[OF d il] e by blast
    then show "w \<in> (!) ps ` {j \<in> {lo..hi}. i + 1 = j \<or> j + 1 = i}" using j by blast
  next
    assume "w \<in> (!) ps ` {j \<in> {lo..hi}. i + 1 = j \<or> j + 1 = i}"
    then obtain j where j: "j \<in> {lo..hi}" "w = ps ! j" "i + 1 = j \<or> j + 1 = i" by blast
    have "j < length ps" using j(1) hi by simp
    then have "(ps ! i, ps ! j) \<in> edge_rel (zip ps (tl ps))" using path_edge[OF d il] j(3) by blast
    then show "w \<in> nbrs_in (edge_rel (zip ps (tl ps))) ((!) ps ` {lo..hi}) (ps ! i)"
      using j by (simp add: nbrs_in_def)
  qed
qed

lemma path_degree:
  assumes d: "distinct ps" and hi: "hi < length ps" and i: "lo \<le> i" "i \<le> hi"
  shows "card (nbrs_in (edge_rel (zip ps (tl ps))) ((!) ps ` {lo..hi}) (ps ! i)) \<le> 1
           \<longleftrightarrow> i = lo \<or> i = hi"
proof -
  let ?A = "{j \<in> {lo..hi}. i + 1 = j \<or> j + 1 = i}"
  have "?A \<subseteq> {..<length ps}" using hi by auto
  moreover have "inj_on ((!) ps) {..<length ps}" using d by (simp add: inj_on_nth)
  ultimately have "inj_on ((!) ps) ?A" by (rule inj_on_subset[rotated])
  then have c: "card (nbrs_in (edge_rel (zip ps (tl ps))) ((!) ps ` {lo..hi}) (ps ! i)) = card ?A"
    unfolding path_nbrs[OF d hi i] by (rule card_image)
  have fin: "finite ?A" by simp
  show ?thesis
  proof (cases "i = lo \<or> i = hi")
    case True
    have "?A \<subseteq> {if i = lo then i + 1 else i - 1}" using True i by auto
    then have "card ?A \<le> card {if i = lo then i + 1 else i - 1}"
      by (intro card_mono) simp_all
    then show ?thesis using True c by simp
  next
    case False
    then have "{i - 1, i + 1} \<subseteq> ?A" using i by auto
    then have "card {i - 1, i + 1} \<le> card ?A" using fin by (intro card_mono)
    moreover have "card {i - 1, i + 1} = 2" using False i by simp
    ultimately show ?thesis using False c by simp
  qed
qed

lemma path_leaves:
  assumes d: "distinct ps" and hi: "hi < length ps" and lo: "lo \<le> hi"
  shows "{u \<in> (!) ps ` {lo..hi}.
            card (nbrs_in (edge_rel (zip ps (tl ps))) ((!) ps ` {lo..hi}) u) \<le> 1}
           = {ps ! lo, ps ! hi}"
proof (rule set_eqI)
  fix u
  let ?L = "{u \<in> (!) ps ` {lo..hi}.
              card (nbrs_in (edge_rel (zip ps (tl ps))) ((!) ps ` {lo..hi}) u) \<le> 1}"
  show "u \<in> ?L \<longleftrightarrow> u \<in> {ps ! lo, ps ! hi}"
  proof
    assume "u \<in> ?L"
    then obtain i where i: "lo \<le> i" "i \<le> hi" "u = ps ! i"
      and c: "card (nbrs_in (edge_rel (zip ps (tl ps))) ((!) ps ` {lo..hi}) (ps ! i)) \<le> 1"
      by auto
    from c have "i = lo \<or> i = hi" unfolding path_degree[OF d hi i(1,2)] .
    then show "u \<in> {ps ! lo, ps ! hi}" using i(3) by auto
  next
    assume "u \<in> {ps ! lo, ps ! hi}"
    then obtain i where i: "i = lo \<or> i = hi" "u = ps ! i" by auto
    have r: "lo \<le> i" "i \<le> hi" using i(1) lo by auto
    have "card (nbrs_in (edge_rel (zip ps (tl ps))) ((!) ps ` {lo..hi}) (ps ! i)) \<le> 1"
      unfolding path_degree[OF d hi r] using i(1) .
    moreover have "u \<in> (!) ps ` {lo..hi}" using r i(2) by simp
    ultimately show "u \<in> ?L" using i(2) by simp
  qed
qed

lemma seg_remove_lo:
  assumes d: "distinct ps" and hi: "hi < length ps" and lo: "lo < hi"
  shows "(!) ps ` {lo..hi} - {ps ! lo} = (!) ps ` {Suc lo..hi}"
proof -
  have inj: "inj_on ((!) ps) {..<length ps}" using d by (simp add: inj_on_nth)
  have "(!) ps ` ({lo..hi} - {lo}) = (!) ps ` {lo..hi} - (!) ps ` {lo}"
    using hi lo by (intro inj_on_image_set_diff[OF inj]) auto
  moreover have "{lo..hi} - {lo} = {Suc lo..hi}" by auto
  ultimately show ?thesis by simp
qed

lemma seg_remove_hi:
  assumes d: "distinct ps" and hi: "hi < length ps" and lo: "lo < hi"
  shows "(!) ps ` {lo..hi} - {ps ! hi} = (!) ps ` {lo..hi - 1}"
proof -
  have inj: "inj_on ((!) ps) {..<length ps}" using d by (simp add: inj_on_nth)
  have "(!) ps ` ({lo..hi} - {hi}) = (!) ps ` {lo..hi} - (!) ps ` {hi}"
    using hi lo by (intro inj_on_image_set_diff[OF inj]) auto
  moreover have "{lo..hi} - {hi} = {lo..hi - 1}" using lo by auto
  ultimately show ?thesis by simp
qed

lemma one_list: "distinct (a # xs) \<Longrightarrow> set (a # xs) = {a} \<Longrightarrow> xs = []"
  by (cases xs) auto

lemma two_list:
  assumes "distinct (a # xs)" "set (a # xs) = {a, b}" "a \<noteq> b"
  shows "xs = [b]"
proof (cases xs)
  case Nil
  then show ?thesis using assms by auto
next
  case (Cons y ys)
  have y: "y = b" using assms Cons by auto
  have "set ys \<subseteq> {a, b}" using assms(2) Cons by auto
  moreover have "a \<notin> set ys" "b \<notin> set ys" using assms(1) Cons y by auto
  ultimately have "ys = []" by (cases ys) auto
  then show ?thesis using Cons y by simp
qed

lemma path_strip:
  assumes d: "distinct ps"
  shows "hi < length ps \<Longrightarrow> lo \<le> hi \<Longrightarrow>
     strip_inv (edge_rel (zip ps (tl ps))) ((!) ps ` {lo..hi}) nb q \<Longrightarrow>
     q = (if lo = hi then [ps ! lo] else if a then [ps ! lo, ps ! hi] else [ps ! hi, ps ! lo]) \<Longrightarrow>
     \<exists>us. strip_order nb q = Inr us \<and> us \<noteq> []
        \<and> last us = ps ! (if a then (lo + hi + 1) div 2 else (lo + hi) div 2)"
proof (induction "hi - lo" arbitrary: lo hi nb q a rule: less_induct)
  case less
  let ?E = "edge_rel (zip ps (tl ps))"
  note hi = less.prems(1) and lo = less.prems(2) and inv = less.prems(3) and q = less.prems(4)
  show ?case
  proof (cases "lo = hi")
    case True
    have q1: "q = [ps ! lo]" using q True by simp
    have U: "(!) ps ` {lo..hi} = {ps ! lo}" using True by simp
    from strip_step[OF inv[unfolded q1]]
    obtain nb' q' where ul: "ps ! lo < length nb"
      and run: "strip_neighbors (ps ! lo) (sort (nb ! (ps ! lo))) nb [] = Inr (nb', q')"
      and inv': "strip_inv ?E ((!) ps ` {lo..hi} - {ps ! lo}) nb' q'"
      by blast
    have "set q' = {}" using inv' unfolding U strip_inv_def by simp
    then have "q' = []" by simp
    then have "strip_order nb' q' = Inr []" by simp
    from strip_order_Cons[OF ul run this]
    have "strip_order nb q = Inr [ps ! lo]" unfolding q1 .
    then show ?thesis using True by simp
  next
    case False
    then have lt: "lo < hi" using lo by simp
    show ?thesis
    proof (cases a)
      case True
      have q2: "q = [ps ! lo, ps ! hi]" using q False True by simp
      from strip_step[OF inv[unfolded q2]]
      obtain nb' xs where ul: "ps ! lo < length nb"
        and run: "strip_neighbors (ps ! lo) (sort (nb ! (ps ! lo))) nb [ps ! hi]
                    = Inr (nb', [ps ! hi] @ xs)"
        and inv': "strip_inv ?E ((!) ps ` {lo..hi} - {ps ! lo}) nb' ([ps ! hi] @ xs)"
        by blast
      have inv2: "strip_inv ?E ((!) ps ` {Suc lo..hi}) nb' (ps ! hi # xs)"
        using inv' unfolding seg_remove_lo[OF d hi lt] by simp
      have le: "Suc lo \<le> hi" using lt by simp
      have dq: "distinct (ps ! hi # xs)" and sq: "set (ps ! hi # xs) = {ps ! Suc lo, ps ! hi}"
        using inv2 unfolding strip_inv_def path_leaves[OF d hi le] by simp_all
      have q': "ps ! hi # xs
                 = (if Suc lo = hi then [ps ! Suc lo]
                    else if False then [ps ! Suc lo, ps ! hi] else [ps ! hi, ps ! Suc lo])"
      proof (cases "Suc lo = hi")
        case True
        then have "set (ps ! hi # xs) = {ps ! hi}" using sq by simp
        from one_list[OF dq this] show ?thesis using True by simp
      next
        case False
        then have "ps ! hi \<noteq> ps ! Suc lo"
          using d hi le by (simp add: nth_eq_iff_index_eq)
        moreover have "set (ps ! hi # xs) = {ps ! hi, ps ! Suc lo}" using sq by auto
        ultimately have "xs = [ps ! Suc lo]" using two_list[OF dq] by blast
        then show ?thesis using False by simp
      qed
      have "hi - Suc lo < hi - lo" using lt by simp
      from less.hyps[OF this hi le inv2 q']
      obtain us where us: "strip_order nb' (ps ! hi # xs) = Inr us" "us \<noteq> []"
        "last us = ps ! ((Suc lo + hi) div 2)" by auto
      have "strip_order nb q = Inr (ps ! lo # us)"
        unfolding q2 using strip_order_Cons[OF ul run] us(1) by simp
      then show ?thesis using us(2,3) True by simp
    next
      case False
      have q2: "q = [ps ! hi, ps ! lo]" using q \<open>lo \<noteq> hi\<close> False by simp
      from strip_step[OF inv[unfolded q2]]
      obtain nb' xs where ul: "ps ! hi < length nb"
        and run: "strip_neighbors (ps ! hi) (sort (nb ! (ps ! hi))) nb [ps ! lo]
                    = Inr (nb', [ps ! lo] @ xs)"
        and inv': "strip_inv ?E ((!) ps ` {lo..hi} - {ps ! hi}) nb' ([ps ! lo] @ xs)"
        by blast
      have inv2: "strip_inv ?E ((!) ps ` {lo..hi - 1}) nb' (ps ! lo # xs)"
        using inv' unfolding seg_remove_hi[OF d hi lt] by simp
      have le: "lo \<le> hi - 1" and hi1: "hi - 1 < length ps" using lt hi by simp_all
      have dq: "distinct (ps ! lo # xs)" and sq: "set (ps ! lo # xs) = {ps ! lo, ps ! (hi - 1)}"
        using inv2 unfolding strip_inv_def path_leaves[OF d hi1 le] by simp_all
      have q': "ps ! lo # xs
                 = (if lo = hi - 1 then [ps ! lo]
                    else if True then [ps ! lo, ps ! (hi - 1)] else [ps ! (hi - 1), ps ! lo])"
      proof (cases "lo = hi - 1")
        case True
        then have "set (ps ! lo # xs) = {ps ! lo}" using sq by simp
        from one_list[OF dq this] show ?thesis using True by simp
      next
        case False
        then have "ps ! lo \<noteq> ps ! (hi - 1)"
          using d hi1 le by (simp add: nth_eq_iff_index_eq)
        then have "xs = [ps ! (hi - 1)]" using two_list[OF dq sq] by blast
        then show ?thesis using False by simp
      qed
      have "hi - 1 - lo < hi - lo" using lt by simp
      from less.hyps[OF this hi1 le inv2 q']
      obtain us where us: "strip_order nb' (ps ! lo # xs) = Inr us" "us \<noteq> []"
        "last us = ps ! ((lo + (hi - 1) + 1) div 2)" by auto
      have "lo + (hi - 1) + 1 = lo + hi" using lt by simp
      then have l: "last us = ps ! ((lo + hi) div 2)" using us(3) by simp
      have "strip_order nb q = Inr (ps ! hi # us)"
        unfolding q2 using strip_order_Cons[OF ul run] us(1) by simp
      then show ?thesis using us(2) l False by simp
    qed
  qed
qed

lemma initial_queue_degree:
  assumes b: "build_neighbors (replicate (length es + 1) []) es = Inr nb"
    and inv: "strip_inv (edge_rel es) {..<length es + 1} nb q"
  shows "initial_queue nb = filter (\<lambda>v. degree es v \<le> 1) [0..<length es + 1]"
proof -
  have ln: "length nb = length es + 1" using build_neighbors_length[OF b] by simp
  have ent: "\<forall>u \<in> {..<length es + 1}. u < length nb \<and> distinct (nb ! u)
               \<and> set (nb ! u) = nbrs_in (edge_rel es) {..<length es + 1} u"
    using inv unfolding strip_inv_def by blast
  have len: "length (nb ! u) = degree es u" if "u < length es + 1" for u
  proof -
    have "distinct (nb ! u)" "set (nb ! u) = nbrs_in (edge_rel es) {..<length es + 1} u"
      using ent that by simp_all
    then show ?thesis using distinct_card[of "nb ! u"] by (simp add: degree_def)
  qed
  have "(length (nb ! x) \<le> 1) = (degree es x \<le> 1)" if "x \<in> set [0..<length es + 1]" for x
  proof -
    have "x < length es + 1" using that by auto
    from len[OF this] show ?thesis by simp
  qed
  then show ?thesis unfolding initial_queue_def ln
    by (intro filter_cong refl)
qed

lemma sorted_two:
  assumes "sorted xs" "distinct xs" "set xs = {a, b}" "a < b"
  shows "xs = [a, b :: nat]"
proof -
  have "sorted [a, b]" "distinct [a, b]" "set xs = set [a, b]" using assms by auto
  then show ?thesis using sorted_distinct_set_unique[OF assms(1,2)] by blast
qed

lemma sorted_one:
  assumes "distinct xs" "set xs = {a}"
  shows "xs = [a]"
proof (cases xs)
  case Nil
  then show ?thesis using assms by simp
next
  case (Cons y ys)
  have y: "y = a" using assms(2) Cons by auto
  have "ys = []" using one_list[of a ys] assms Cons y by simp
  then show ?thesis using Cons y by simp
qed

lemma tree_visit_order:
  assumes t: "is_tree {..<length es + 1} (edge_rel es)"
  shows "\<exists>us rest. visit_order es = Inr us \<and> distinct us \<and> set us = {..<length es + 1}
           \<and> us = filter (\<lambda>v. degree es v \<le> 1) [0..<length es + 1] @ rest
           \<and> find_center_of_tree es = Inr (last us)"
proof -
  from initial_inv_gen[OF t] obtain nb
    where b: "build_neighbors (replicate (length es + 1) []) es = Inr nb"
      and inv: "strip_inv (edge_rel es) {..<length es + 1} nb (initial_queue nb)" by blast
  from strip_order_complete[OF inv] obtain us rest
    where us: "strip_order nb (initial_queue nb) = Inr us" "distinct us" "set us = {..<length es + 1}"
      "us = initial_queue nb @ rest"
    by blast
  have "0 \<in> set us" unfolding us(3) by simp
  then have ne: "us \<noteq> []" by (cases us) simp_all
  have "visit_order es = Inr us" using b us(1) by (simp add: visit_order_def)
  moreover have "find_center_of_tree es = Inr (last us)"
    using b us(1) ne by (simp add: find_center_of_tree_def strip_leaves_order)
  moreover have "us = filter (\<lambda>v. degree es v \<le> 1) [0..<length es + 1] @ rest"
    using us(4) unfolding initial_queue_degree[OF b inv] .
  ultimately show ?thesis using us(2,3) by blast
qed

lemma path_center:
  assumes d: "distinct ps" and s: "set ps = {..<length ps}" and l: "length ps = length es + 1"
    and e: "edge_rel es = edge_rel (zip ps (tl ps))"
  shows "find_center_of_tree es
           = Inr (ps ! (if hd ps < last ps then length ps div 2 else (length ps - 1) div 2))"
proof -
  define n where "n = length ps - 1"
  have ne: "ps \<noteq> []" using l by auto
  have n: "n < length ps" "length ps = n + 1" using l by (simp_all add: n_def)
  have hd: "hd ps = ps ! 0" using ne by (simp add: hd_conv_nth)
  have la: "last ps = ps ! n" using ne by (simp add: last_conv_nth n_def)
  have "is_tree (set ps) (edge_rel (zip ps (tl ps)))" using path_is_tree[OF ne d] .
  then have t: "is_tree {..<length es + 1} (edge_rel es)" unfolding s e l .
  from initial_inv_gen[OF t] obtain nb
    where b: "build_neighbors (replicate (length es + 1) []) es = Inr nb"
      and inv: "strip_inv (edge_rel es) {..<length es + 1} nb (initial_queue nb)" by blast
  have "{0..n} = {0..<length ps}" using n(2) by auto
  then have "(!) ps ` {0..n} = set ps" using nth_image[of "length ps" ps] by simp
  then have seg: "(!) ps ` {0..n} = {..<length es + 1}" using s l by simp
  have inv1: "strip_inv (edge_rel (zip ps (tl ps))) ((!) ps ` {0..n}) nb (initial_queue nb)"
    using inv unfolding seg e .
  have dq: "distinct (initial_queue nb)" by (simp add: initial_queue_def)
  have so: "sorted (initial_queue nb)"
    unfolding initial_queue_def by (rule sorted_wrt_filter) simp
  have sq: "set (initial_queue nb) = {ps ! 0, ps ! n}"
    using inv1 unfolding strip_inv_def path_leaves[OF d n(1) le0] by simp
  have q: "initial_queue nb
             = (if 0 = n then [ps ! 0]
                else if ps ! 0 < ps ! n then [ps ! 0, ps ! n] else [ps ! n, ps ! 0])"
  proof (cases "0 = n")
    case True
    then have "set (initial_queue nb) = {ps ! 0}" using sq by simp
    from sorted_one[OF dq this] show ?thesis using True by simp
  next
    case False
    have "0 < length ps" using ne by simp
    from nth_eq_iff_index_eq[OF d this n(1)] False
    have neq: "ps ! 0 \<noteq> ps ! n" by simp
    show ?thesis
    proof (cases "ps ! 0 < ps ! n")
      case True
      from sorted_two[OF so dq sq True] show ?thesis using False True by simp
    next
      case nlt: False
      then have lt: "ps ! n < ps ! 0" using neq by simp
      have "set (initial_queue nb) = {ps ! n, ps ! 0}" using sq by auto
      from sorted_two[OF so dq this lt] show ?thesis using False nlt by simp
    qed
  qed
  from path_strip[OF d n(1) le0 inv1 q]
  obtain us where us: "strip_order nb (initial_queue nb) = Inr us" "us \<noteq> []"
    "last us = ps ! (if ps ! 0 < ps ! n then (0 + n + 1) div 2 else (0 + n) div 2)"
    by blast
  have "find_center_of_tree es = Inr (last us)"
    using b us(1,2) by (simp add: find_center_of_tree_def strip_leaves_order)
  then show ?thesis unfolding us(3) hd la n(2) by simp
qed

lemma example_path_is_tree: "is_tree {..<length ([(0, 1), (1, 2)] :: (nat \<times> nat) list) + 1} (edge_rel [(0, 1), (1, 2)])"
proof -
  have "is_tree (set [0, 1, 2 :: nat]) (edge_rel (zip [0, 1, 2] (tl [0, 1, 2])))"
    by (rule path_is_tree) simp_all
  moreover have "set [0, 1, 2 :: nat] = {..<length ([(0, 1), (1, 2)] :: (nat \<times> nat) list) + 1}" by auto
  ultimately show ?thesis by simp
qed

text \<open>
  Claim C5. For every tree on the vertices \<open>0, \<dots>, V - 1\<close>, given by its \<open>V - 1\<close> edges in
  any order, the leaf-stripping loop of \<open>find_center_of_tree\<close> terminates having taken every
  one of the \<open>V\<close> vertices from the queue exactly once, the vertices of degree at most one
  first and in increasing order of their ids, and the function returns the last vertex
  taken. For a path that runs through the vertices \<open>ps\<close> it returns the vertex at position
  \<open>V div 2\<close> of the path when the first end has the smaller id and at position
  \<open>(V - 1) div 2\<close> otherwise, that is at \<open>\<lceil>(V - 1) / 2\<rceil>\<close> or \<open>\<lfloor>(V - 1) / 2\<rfloor>\<close>. For the
  edges \<open>[[0, 1], [1, 2]]\<close> it returns vertex 1.
\<close>

theorem find_center_of_tree_centre:
  "(is_tree {..<length es + 1} (edge_rel es) \<longrightarrow>
      (\<exists>us rest. visit_order es = Inr us \<and> distinct us \<and> set us = {..<length es + 1}
         \<and> us = filter (\<lambda>v. degree es v \<le> 1) [0..<length es + 1] @ rest
         \<and> find_center_of_tree es = Inr (last us)))
   \<and> (distinct ps \<and> set ps = {..<length ps} \<and> length ps = length fs + 1
        \<and> edge_rel fs = edge_rel (zip ps (tl ps)) \<longrightarrow>
      find_center_of_tree fs
        = Inr (ps ! (if hd ps < last ps then length ps div 2 else (length ps - 1) div 2)))
   \<and> find_center_of_tree [(0, 1), (1, 2)] = Inr 1"
proof (intro conjI impI)
  assume "is_tree {..<length es + 1} (edge_rel es)"
  then show "\<exists>us rest. visit_order es = Inr us \<and> distinct us \<and> set us = {..<length es + 1}
         \<and> us = filter (\<lambda>v. degree es v \<le> 1) [0..<length es + 1] @ rest
         \<and> find_center_of_tree es = Inr (last us)"
    by (rule tree_visit_order)
next
  assume "distinct ps \<and> set ps = {..<length ps} \<and> length ps = length fs + 1
        \<and> edge_rel fs = edge_rel (zip ps (tl ps))"
  then show "find_center_of_tree fs
        = Inr (ps ! (if hd ps < last ps then length ps div 2 else (length ps - 1) div 2))"
    using path_center by blast
next
  show "find_center_of_tree [(0, 1), (1, 2)] = Inr 1" by code_simp
qed

theorem find_center_of_tree_centre_witness:
  "is_tree {..<length ([(0, 1), (1, 2)] :: (nat \<times> nat) list) + 1} (edge_rel [(0, 1), (1, 2)])
   \<and> (\<exists>us rest. visit_order [(0, 1), (1, 2)] = Inr us \<and> distinct us
         \<and> set us = {..<length ([(0, 1), (1, 2)] :: (nat \<times> nat) list) + 1}
         \<and> us = filter (\<lambda>v. degree [(0, 1), (1, 2)] v \<le> 1) [0..<length ([(0, 1), (1, 2)] :: (nat \<times> nat) list) + 1] @ rest
         \<and> find_center_of_tree [(0, 1), (1, 2)] = Inr (last us))
   \<and> visit_order [(0, 1), (1, 2)] = Inr [0, 2, 1]
   \<and> distinct [2, 0, 1, 3 :: nat] \<and> set [2, 0, 1, 3 :: nat] = {..<length [2, 0, 1, 3 :: nat]}
   \<and> length [2, 0, 1, 3 :: nat] = length ([(1, 3), (0, 2), (1, 0)] :: (nat \<times> nat) list) + 1
   \<and> edge_rel [(1, 3), (0, 2), (1, 0)] = edge_rel (zip [2, 0, 1, 3] (tl [2, 0, 1, 3]))
   \<and> find_center_of_tree [(1, 3), (0, 2), (1, 0)] = Inr 1
   \<and> visit_order [(1, 3), (0, 2), (1, 0)] = Inr [2, 3, 0, 1]
   \<and> find_center_of_tree [(0, 1), (1, 2)] = Inr 1"
proof -
  note inst = find_center_of_tree_centre[of "[(0, 1), (1, 2)]" "[2, 0, 1, 3]" "[(1, 3), (0, 2), (1, 0)]"]
  have h1: "is_tree {..<length ([(0, 1), (1, 2)] :: (nat \<times> nat) list) + 1} (edge_rel [(0, 1), (1, 2)])"
    by (rule example_path_is_tree)
  have h2: "distinct [2, 0, 1, 3 :: nat]" by simp
  have h3: "set [2, 0, 1, 3 :: nat] = {..<length [2, 0, 1, 3 :: nat]}" by auto
  have h4: "length [2, 0, 1, 3 :: nat] = length ([(1, 3), (0, 2), (1, 0)] :: (nat \<times> nat) list) + 1" by simp
  have h5: "edge_rel [(1, 3), (0, 2), (1, 0)] = edge_rel (zip [2, 0, 1, 3] (tl [2, 0, 1, 3]))"
    by (auto simp: edge_rel_def)
  have c1: "\<exists>us rest. visit_order [(0, 1), (1, 2)] = Inr us \<and> distinct us
         \<and> set us = {..<length ([(0, 1), (1, 2)] :: (nat \<times> nat) list) + 1}
         \<and> us = filter (\<lambda>v. degree [(0, 1), (1, 2)] v \<le> 1) [0..<length ([(0, 1), (1, 2)] :: (nat \<times> nat) list) + 1] @ rest
         \<and> find_center_of_tree [(0, 1), (1, 2)] = Inr (last us)"
    using inst[THEN conjunct1, rule_format, OF h1] .
  have "find_center_of_tree [(1, 3), (0, 2), (1, 0)]
        = Inr ([2, 0, 1, 3] ! (if hd [2, 0, 1, 3 :: nat] < last [2, 0, 1, 3] then length [2, 0, 1, 3 :: nat] div 2
                 else (length [2, 0, 1, 3 :: nat] - 1) div 2))"
    using inst[THEN conjunct2, THEN conjunct1, rule_format] h2 h3 h4 h5 by blast
  then have c2: "find_center_of_tree [(1, 3), (0, 2), (1, 0)] = Inr 1" by simp
  have c3: "visit_order [(0, 1), (1, 2)] = Inr [0, 2, 1]" by code_simp
  have c4: "visit_order [(1, 3), (0, 2), (1, 0)] = Inr [2, 3, 0, 1]" by code_simp
  have c5: "find_center_of_tree [(0, 1), (1, 2)] = Inr 1" using inst by blast
  show ?thesis using h1 h2 h3 h4 h5 c1 c2 c3 c4 c5 by blast
qed

end
